theory Spec2Isabelle
  imports Main "HOL-Library.Char_ord" "HOL-Library.List_Lexorder"
begin

section \<open>The node tree of Yaml.cpp\<close>

subsection \<open>std::map as an ascending association list\<close>

text \<open>
  Both containers of the source are \<^verbatim>\<open>std::map\<close>: \<^verbatim>\<open>std::map<size_t, Node*> m_Sequence\<close>
  and \<^verbatim>\<open>std::map<std::string, Node*> m_Map\<close>. A \<^verbatim>\<open>std::map\<close> keeps its entries in
  ascending key order, whatever the order of insertion, and its iterators walk that order.
  The model is the list of entries in iteration order. \<^verbatim>\<open>std::string\<close> keys compare
  bytewise (as unsigned bytes) and a proper prefix is smaller, which is the lexicographic
  order on \<^typ>\<open>char list\<close>.
\<close>

text \<open>\<^verbatim>\<open>find\<close>: the mapped value, or nothing for \<^verbatim>\<open>end()\<close>.\<close>

fun stdmap_find :: "'k \<Rightarrow> ('k \<times> 'v) list \<Rightarrow> 'v option" where
  "stdmap_find k [] = None"
| "stdmap_find k ((k', v) # m) = (if k = k' then Some v else stdmap_find k m)"

text \<open>\<^verbatim>\<open>insert({k, v})\<close>: adds the entry at its place in key order; an existing key keeps
  its old value and nothing is inserted.\<close>

fun stdmap_insert :: "'k::linorder \<Rightarrow> 'v \<Rightarrow> ('k \<times> 'v) list \<Rightarrow> ('k \<times> 'v) list" where
  "stdmap_insert k v [] = [(k, v)]"
| "stdmap_insert k v ((k', v') # m) =
     (if k < k' then (k, v) # (k', v') # m
      else if k = k' then (k', v') # m
      else (k', v') # stdmap_insert k v m)"

text \<open>\<^verbatim>\<open>m[k] = v\<close>: inserts the key when it is missing, and overwrites the value.\<close>

fun stdmap_assign :: "'k::linorder \<Rightarrow> 'v \<Rightarrow> ('k \<times> 'v) list \<Rightarrow> ('k \<times> 'v) list" where
  "stdmap_assign k v [] = [(k, v)]"
| "stdmap_assign k v ((k', v') # m) =
     (if k < k' then (k, v) # (k', v') # m
      else if k = k' then (k', v) # m
      else (k', v') # stdmap_assign k v m)"

text \<open>\<^verbatim>\<open>erase(k)\<close>.\<close>

fun stdmap_erase :: "'k \<Rightarrow> ('k \<times> 'v) list \<Rightarrow> ('k \<times> 'v) list" where
  "stdmap_erase k [] = []"
| "stdmap_erase k ((k', v) # m) = (if k = k' then m else (k', v) # stdmap_erase k m)"

text \<open>An iterator is the entry it stands on, or \<open>None\<close> for \<^verbatim>\<open>end()\<close>. \<^verbatim>\<open>it++\<close> from
  the entry with key \<open>k\<close> gives the first entry of the current map with a greater key.\<close>

fun stdmap_next :: "'k::linorder \<Rightarrow> ('k \<times> 'v) list \<Rightarrow> ('k \<times> 'v) option" where
  "stdmap_next k [] = None"
| "stdmap_next k ((k', v) # m) = (if k < k' then Some (k', v) else stdmap_next k m)"

text \<open>\<^verbatim>\<open>begin()\<close>.\<close>

definition stdmap_begin :: "('k \<times> 'v) list \<Rightarrow> ('k \<times> 'v) option" where
  "stdmap_begin m = (case m of [] \<Rightarrow> None | e # _ \<Rightarrow> Some e)"

subsection \<open>Node, NodeImp and the three TypeImp classes\<close>

datatype eType = NoneType | SequenceType | MapType | ScalarType

text \<open>
  A \<^verbatim>\<open>Node\<close> owns a \<^verbatim>\<open>NodeImp\<close>, which holds the tag \<^verbatim>\<open>m_Type\<close> and the pointer
  \<^verbatim>\<open>m_pImp\<close> to a \<^verbatim>\<open>SequenceImp\<close>, \<^verbatim>\<open>MapImp\<close> or \<^verbatim>\<open>ScalarImp\<close> (null for
  \<^verbatim>\<open>None\<close>). Every method that sets one sets the other, so the pair is one constructor
  here. Children are owned by their parent and are values of the same type.
\<close>

datatype Node =
    NoneNode
  | SequenceNode "(nat \<times> Node) list"
  | MapNode "(string \<times> Node) list"
  | ScalarNode string

fun Node_Type :: "Node \<Rightarrow> eType" where
  "Node_Type NoneNode = NoneType"
| "Node_Type (SequenceNode m) = SequenceType"
| "Node_Type (MapNode m) = MapType"
| "Node_Type (ScalarNode s) = ScalarType"

definition Node_IsNone :: "Node \<Rightarrow> bool" where
  "Node_IsNone n = (Node_Type n = NoneType)"

definition Node_IsSequence :: "Node \<Rightarrow> bool" where
  "Node_IsSequence n = (Node_Type n = SequenceType)"

definition Node_IsMap :: "Node \<Rightarrow> bool" where
  "Node_IsMap n = (Node_Type n = MapType)"

definition Node_IsScalar :: "Node \<Rightarrow> bool" where
  "Node_IsScalar n = (Node_Type n = ScalarType)"

definition NodeImp_Clear :: "Node \<Rightarrow> Node" where
  "NodeImp_Clear n = NoneNode"

fun NodeImp_InitSequence :: "Node \<Rightarrow> Node" where
  "NodeImp_InitSequence (SequenceNode m) = SequenceNode m"
| "NodeImp_InitSequence n = SequenceNode []"

fun NodeImp_InitMap :: "Node \<Rightarrow> Node" where
  "NodeImp_InitMap (MapNode m) = MapNode m"
| "NodeImp_InitMap n = MapNode []"

fun NodeImp_InitScalar :: "Node \<Rightarrow> Node" where
  "NodeImp_InitScalar (ScalarNode s) = ScalarNode s"
| "NodeImp_InitScalar n = ScalarNode []"

text \<open>\<^verbatim>\<open>Node::Size\<close>: 0 without an implementation, else \<^verbatim>\<open>GetSize\<close>, the number of
  entries of the container (0 for a scalar).\<close>

fun Node_Size :: "Node \<Rightarrow> nat" where
  "Node_Size NoneNode = 0"
| "Node_Size (SequenceNode m) = length m"
| "Node_Size (MapNode m) = length m"
| "Node_Size (ScalarNode s) = 0"

fun Node_AsString :: "Node \<Rightarrow> string" where
  "Node_AsString (ScalarNode s) = s"
| "Node_AsString n = []"

text \<open>\<^verbatim>\<open>Node::operator=(const std::string &)\<close>.\<close>

definition Node_assign_string :: "Node \<Rightarrow> string \<Rightarrow> Node" where
  "Node_assign_string n v = (case NodeImp_InitScalar n of ScalarNode s \<Rightarrow> ScalarNode v | n' \<Rightarrow> n')"

subsection \<open>SequenceImp\<close>

text \<open>
  The keys of \<^verbatim>\<open>m_Sequence\<close> are \<^verbatim>\<open>size_t\<close>, modelled as natural numbers below
  \<open>2 ^ 64\<close>. \<^verbatim>\<open>GetNode\<close> returns the child stored under the index, or \<^verbatim>\<open>nullptr\<close>.
\<close>

definition SequenceImp_GetNode :: "(nat \<times> Node) list \<Rightarrow> nat \<Rightarrow> Node option" where
  "SequenceImp_GetNode m index = stdmap_find index m"

text \<open>
  \<^verbatim>\<open>PushBack\<close> takes the key after the last key of the map (not the size of the map) and
  inserts a new empty node there. The result is the new map and the key of the new child.
  Keys only grow one at a time, so \<^verbatim>\<open>it->first + 1\<close> wraps here only after \<open>2 ^ 64\<close>
  calls; the model adds without wrapping.
\<close>

definition SequenceImp_PushBack :: "(nat \<times> Node) list \<Rightarrow> (nat \<times> Node) list \<times> nat" where
  "SequenceImp_PushBack m =
     (let index = (if length m \<noteq> 0 then fst (last m) + 1 else 0)
      in (stdmap_insert index NoneNode m, index))"

text \<open>\<^verbatim>\<open>Erase\<close> removes the entry of the index when there is one. No other key changes.\<close>

definition SequenceImp_Erase :: "(nat \<times> Node) list \<Rightarrow> nat \<Rightarrow> (nat \<times> Node) list" where
  "SequenceImp_Erase m index =
     (case stdmap_find index m of None \<Rightarrow> m | Some n \<Rightarrow> stdmap_erase index m)"

text \<open>
  The loop of \<^verbatim>\<open>PushFront\<close>,
  \<^verbatim>\<open>for(auto it = m_Sequence.cbegin(); it != m_Sequence.cend(); it++)
      m_Sequence[it->first+1] = it->second;\<close>
  walks the map upwards while it writes the key above the current one, so the entry it
  has just written is the next one it visits. \<^verbatim>\<open>it->first+1\<close> is \<open>size_t_succ\<close>, which
  wraps at \<open>2 ^ 64\<close> as \<^verbatim>\<open>size_t\<close> does. The fuel bounds the number of times the body
  runs: the result is \<open>None\<close> when the loop has not ended within the fuel.
\<close>

definition size_t_succ :: "nat \<Rightarrow> nat" where
  "size_t_succ k = (k + 1) mod 2 ^ 64"

fun PushFront_loop ::
  "nat \<Rightarrow> (nat \<times> Node) list \<Rightarrow> (nat \<times> Node) option \<Rightarrow> (nat \<times> Node) list option" where
  "PushFront_loop fuel m None = Some m"
| "PushFront_loop 0 m (Some e) = None"
| "PushFront_loop (Suc fuel) m (Some e) =
     (let m' = stdmap_assign (size_t_succ (fst e)) (snd e) m
      in PushFront_loop fuel m' (stdmap_next (fst e) m'))"

text \<open>
  A reference returned by a node operation: to the child under a key of the sequence, to
  the global \<^verbatim>\<open>g_NoneNode\<close>, or to a node that was allocated and is in no container
  (\<^verbatim>\<open>insert\<close> on an existing key drops the new pair, and the source returns the new
  node all the same).
\<close>

datatype NodeRef = ChildAt nat | GlobalNoneNode | UnownedNode

text \<open>\<^verbatim>\<open>PushFront\<close>: the loop, then \<^verbatim>\<open>insert({0, pNode})\<close>, which leaves an existing
  key 0 as it is.\<close>

definition SequenceImp_PushFront ::
  "nat \<Rightarrow> (nat \<times> Node) list \<Rightarrow> ((nat \<times> Node) list \<times> NodeRef) option" where
  "SequenceImp_PushFront fuel m =
     (case PushFront_loop fuel m (stdmap_begin m) of
        None \<Rightarrow> None
      | Some m' \<Rightarrow>
          Some (stdmap_insert 0 NoneNode m',
                if stdmap_find 0 m' = None then ChildAt 0 else UnownedNode))"

text \<open>
  The loop of \<^verbatim>\<open>Insert\<close>,
  \<^verbatim>\<open>auto it = m_Sequence.cbegin();
  while(it != m_Sequence.cend()) {
      m_Sequence[it->first+1] = it->second;
      if(it->first == index) break;
  }\<close>
  never moves \<open>it\<close>. A run that does not end has the value \<open>None\<close>.
\<close>

partial_function (option) Insert_loop ::
  "(nat \<times> Node) list \<Rightarrow> (nat \<times> Node) option \<Rightarrow> nat \<Rightarrow> (nat \<times> Node) list option" where
  "Insert_loop m it index =
     (case it of
        None \<Rightarrow> Some m
      | Some e \<Rightarrow>
          (if fst e = index then Some (stdmap_assign (size_t_succ (fst e)) (snd e) m)
           else Insert_loop (stdmap_assign (size_t_succ (fst e)) (snd e) m) it index))"

definition SequenceImp_Insert ::
  "(nat \<times> Node) list \<Rightarrow> nat \<Rightarrow> ((nat \<times> Node) list \<times> NodeRef) option" where
  "SequenceImp_Insert m index =
     (if length m = 0 then Some (stdmap_insert 0 NoneNode m, ChildAt 0)
      else if index \<ge> length m then Some (stdmap_insert (fst (last m)) NoneNode m, UnownedNode)
      else (case Insert_loop m (stdmap_begin m) index of
              None \<Rightarrow> None
            | Some m' \<Rightarrow>
                Some (stdmap_insert index NoneNode m',
                      if stdmap_find index m' = None then ChildAt index else UnownedNode)))"

subsection \<open>MapImp\<close>

text \<open>\<^verbatim>\<open>GetNode(key)\<close> returns the child of the key and inserts a new empty child first
  when the key is missing.\<close>

definition MapImp_GetNode :: "(string \<times> Node) list \<Rightarrow> string \<Rightarrow> (string \<times> Node) list \<times> Node" where
  "MapImp_GetNode m key =
     (case stdmap_find key m of
        None \<Rightarrow> (stdmap_insert key NoneNode m, NoneNode)
      | Some n \<Rightarrow> (m, n))"

definition MapImp_Erase :: "(string \<times> Node) list \<Rightarrow> string \<Rightarrow> (string \<times> Node) list" where
  "MapImp_Erase m key =
     (case stdmap_find key m of None \<Rightarrow> m | Some n \<Rightarrow> stdmap_erase key m)"

subsection \<open>Node operations\<close>

text \<open>\<^verbatim>\<open>Node::PushBack\<close>: the node becomes a sequence when it is not one, then
  \<^verbatim>\<open>SequenceImp::PushBack\<close>. The result is the node and the key of the new child.\<close>

definition Node_PushBack :: "Node \<Rightarrow> Node \<times> nat" where
  "Node_PushBack n =
     (case NodeImp_InitSequence n of
        SequenceNode m \<Rightarrow> (let (m', index) = SequenceImp_PushBack m in (SequenceNode m', index))
      | n' \<Rightarrow> (n', 0))"

text \<open>\<^verbatim>\<open>Node::PushFront\<close> and \<^verbatim>\<open>Node::Insert\<close>, likewise. \<open>None\<close> is a call that
  does not return.\<close>

definition Node_PushFront :: "nat \<Rightarrow> Node \<Rightarrow> (Node \<times> NodeRef) option" where
  "Node_PushFront fuel n =
     (case NodeImp_InitSequence n of
        SequenceNode m \<Rightarrow>
          (case SequenceImp_PushFront fuel m of
             None \<Rightarrow> None
           | Some (m', r) \<Rightarrow> Some (SequenceNode m', r))
      | n' \<Rightarrow> Some (n', UnownedNode))"

definition Node_Insert :: "Node \<Rightarrow> nat \<Rightarrow> (Node \<times> NodeRef) option" where
  "Node_Insert n index =
     (case NodeImp_InitSequence n of
        SequenceNode m \<Rightarrow>
          (case SequenceImp_Insert m index of
             None \<Rightarrow> None
           | Some (m', r) \<Rightarrow> Some (SequenceNode m', r))
      | n' \<Rightarrow> Some (n', UnownedNode))"

text \<open>\<^verbatim>\<open>Node::Erase(const size_t)\<close> and \<^verbatim>\<open>Node::Erase(const std::string &)\<close> return at
  once on a node of another kind.\<close>

fun Node_Erase :: "Node \<Rightarrow> nat \<Rightarrow> Node" where
  "Node_Erase (SequenceNode m) index = SequenceNode (SequenceImp_Erase m index)"
| "Node_Erase n index = n"

fun Node_Erase_key :: "Node \<Rightarrow> string \<Rightarrow> Node" where
  "Node_Erase_key (MapNode m) key = MapNode (MapImp_Erase m key)"
| "Node_Erase_key n key = n"

text \<open>
  \<^verbatim>\<open>Node::operator[](const size_t)\<close> turns the node into a sequence, looks the index up and
  returns a reference: to the child, or to the global \<^verbatim>\<open>g_NoneNode\<close> after clearing it.
  The state is the node and \<^verbatim>\<open>g_NoneNode\<close>; the reference says which of the two the
  caller holds.
\<close>

definition Node_index :: "Node \<times> Node \<Rightarrow> nat \<Rightarrow> (Node \<times> Node) \<times> NodeRef" where
  "Node_index st index =
     (let n = NodeImp_InitSequence (fst st); g = snd st
      in case n of
           SequenceNode m \<Rightarrow>
             (case SequenceImp_GetNode m index of
                None \<Rightarrow> ((n, NodeImp_Clear g), GlobalNoneNode)
              | Some c \<Rightarrow> ((n, g), ChildAt index))
         | n' \<Rightarrow> ((n, NodeImp_Clear g), GlobalNoneNode))"

text \<open>The node a reference stands for.\<close>

definition deref :: "Node \<times> Node \<Rightarrow> NodeRef \<Rightarrow> Node" where
  "deref st r =
     (case r of
        GlobalNoneNode \<Rightarrow> snd st
      | UnownedNode \<Rightarrow> NoneNode
      | ChildAt i \<Rightarrow>
          (case fst st of
             SequenceNode m \<Rightarrow> (case stdmap_find i m of Some c \<Rightarrow> c | None \<Rightarrow> snd st)
           | n \<Rightarrow> snd st))"

text \<open>\<^verbatim>\<open>Node::operator[](const std::string &)\<close>: the node becomes a map when it is not
  one, then \<^verbatim>\<open>MapImp::GetNode\<close>. The result is the node and the child of the key.\<close>

definition Node_index_key :: "Node \<Rightarrow> string \<Rightarrow> Node \<times> Node" where
  "Node_index_key n key =
     (case NodeImp_InitMap n of
        MapNode m \<Rightarrow> (let (m', c) = MapImp_GetNode m key in (MapNode m', c))
      | n' \<Rightarrow> (n', NoneNode))"

subsection \<open>Iterators\<close>

text \<open>
  An \<^verbatim>\<open>Iterator\<close> has a type and, for a sequence or a map, the iterator of the
  \<^verbatim>\<open>std::map\<close>, modelled as the position in the ascending entries (\<^verbatim>\<open>end()\<close> is the
  number of entries). \<^verbatim>\<open>Begin()\<close> and \<^verbatim>\<open>End()\<close> of a node that is no container give an
  iterator of type \<^verbatim>\<open>None\<close>.
\<close>

datatype Iterator = NoneIterator | SequenceIterator nat | MapIterator nat

fun Node_Begin :: "Node \<Rightarrow> Iterator" where
  "Node_Begin (SequenceNode m) = SequenceIterator 0"
| "Node_Begin (MapNode m) = MapIterator 0"
| "Node_Begin n = NoneIterator"

fun Node_End :: "Node \<Rightarrow> Iterator" where
  "Node_End (SequenceNode m) = SequenceIterator (length m)"
| "Node_End (MapNode m) = MapIterator (length m)"
| "Node_End n = NoneIterator"

text \<open>\<^verbatim>\<open>operator==\<close>: iterators of different types are unequal, and so are two
  iterators of type \<^verbatim>\<open>None\<close>.\<close>

fun Iterator_eq :: "Iterator \<Rightarrow> Iterator \<Rightarrow> bool" where
  "Iterator_eq (SequenceIterator i) (SequenceIterator j) = (i = j)"
| "Iterator_eq (MapIterator i) (MapIterator j) = (i = j)"
| "Iterator_eq a b = False"

text \<open>\<^verbatim>\<open>operator++\<close> leaves an iterator of type \<^verbatim>\<open>None\<close> as it is.\<close>

fun Iterator_incr :: "Iterator \<Rightarrow> Iterator" where
  "Iterator_incr (SequenceIterator i) = SequenceIterator (i + 1)"
| "Iterator_incr (MapIterator i) = MapIterator (i + 1)"
| "Iterator_incr NoneIterator = NoneIterator"

text \<open>\<^verbatim>\<open>operator*\<close> on an iterator into the node \<open>n\<close>: the key, empty for a sequence, and
  the child; the cleared \<^verbatim>\<open>g_NoneNode\<close> for an iterator of type \<^verbatim>\<open>None\<close>. The loop below
  dereferences no iterator at \<^verbatim>\<open>end()\<close>.\<close>

fun Iterator_deref :: "Node \<Rightarrow> Iterator \<Rightarrow> string \<times> Node" where
  "Iterator_deref (SequenceNode m) (SequenceIterator i) = ([], snd (m ! i))"
| "Iterator_deref (MapNode m) (MapIterator i) = m ! i"
| "Iterator_deref n it = ([], NoneNode)"

text \<open>
  The loop \<^verbatim>\<open>for(auto it = n.Begin(); it != n.End(); it++)\<close> over a node, collecting the
  pairs that \<^verbatim>\<open>operator*\<close> yields. On a node that is no container the test
  \<^verbatim>\<open>it != n.End()\<close> never fails and the loop does not end: the value is \<open>None\<close>.
\<close>

partial_function (option) Node_iterate_loop ::
  "Node \<Rightarrow> Iterator \<Rightarrow> (string \<times> Node) list \<Rightarrow> (string \<times> Node) list option" where
  "Node_iterate_loop n it visited =
     (if Iterator_eq it (Node_End n) then Some visited
      else Node_iterate_loop n (Iterator_incr it) (visited @ [Iterator_deref n it]))"

definition Node_iterate :: "Node \<Rightarrow> (string \<times> Node) list option" where
  "Node_iterate n = Node_iterate_loop n (Node_Begin n) []"

subsection \<open>Writing through a returned reference\<close>

text \<open>
  \<^verbatim>\<open>PushBack\<close> and \<^verbatim>\<open>operator[]\<close> return a \<^verbatim>\<open>Node &\<close> into the container, and the
  caller fills the child in place. Here the caller reads the child under the key, computes
  its new value and stores it back under the same key.
\<close>

fun Node_get_child :: "Node \<Rightarrow> nat \<Rightarrow> Node" where
  "Node_get_child (SequenceNode m) index = (case stdmap_find index m of Some c \<Rightarrow> c | None \<Rightarrow> NoneNode)"
| "Node_get_child n index = NoneNode"

fun Node_put_child :: "Node \<Rightarrow> nat \<Rightarrow> Node \<Rightarrow> Node" where
  "Node_put_child (SequenceNode m) index c = SequenceNode (stdmap_assign index c m)"
| "Node_put_child n index c = n"

fun Node_put_child_key :: "Node \<Rightarrow> string \<Rightarrow> Node \<Rightarrow> Node" where
  "Node_put_child_key (MapNode m) key c = MapNode (stdmap_assign key c m)"
| "Node_put_child_key n key c = n"

subsection \<open>CopyNode and deep-copy assignment\<close>

text \<open>
  \<^verbatim>\<open>CopyNode(from, to)\<close> walks \<open>from\<close> with \<^verbatim>\<open>Begin()\<close>/\<^verbatim>\<open>End()\<close> and builds \<open>to\<close> with
  \<^verbatim>\<open>PushBack\<close>, \<^verbatim>\<open>operator[]\<close> and string assignment. The two trees are separate values
  here: \<open>from\<close> is read while \<open>to\<close> is built.
  \<^verbatim>\<open>from.As<std::string>()\<close> is a template of the header; it yields \<^verbatim>\<open>AsString()\<close>.
\<close>

fun CopyNode :: "Node \<Rightarrow> Node \<Rightarrow> Node"
  and CopyNode_sequence :: "(nat \<times> Node) list \<Rightarrow> Node \<Rightarrow> Node"
  and CopyNode_map :: "(string \<times> Node) list \<Rightarrow> Node \<Rightarrow> Node" where
  "CopyNode NoneNode to = to"
| "CopyNode (ScalarNode s) to = Node_assign_string to (Node_AsString (ScalarNode s))"
| "CopyNode (SequenceNode m) to = CopyNode_sequence m to"
| "CopyNode (MapNode m) to = CopyNode_map m to"
| "CopyNode_sequence [] to = to"
| "CopyNode_sequence (e # m) to =
     (let (to1, index) = Node_PushBack to;
          newNode = CopyNode (snd e) (Node_get_child to1 index)
      in CopyNode_sequence m (Node_put_child to1 index newNode))"
| "CopyNode_map [] to = to"
| "CopyNode_map (e # m) to =
     (let (to1, child) = Node_index_key to (fst e);
          newNode = CopyNode (snd e) child
      in CopyNode_map m (Node_put_child_key to1 (fst e) newNode))"

text \<open>
  \<^verbatim>\<open>Node::operator=(const Node & node)\<close> is \<^verbatim>\<open>NODE_IMP->Clear(); CopyNode(node, *this);\<close>.
  The argument is a reference, and it may be the node itself. The store maps the address
  of a root node to its value; \<open>from\<close> is read from the store after \<open>this\<close> has been
  cleared.
\<close>

definition Node_assign :: "(nat \<Rightarrow> Node) \<Rightarrow> nat \<Rightarrow> nat \<Rightarrow> (nat \<Rightarrow> Node)" where
  "Node_assign store this node =
     (let store1 = store(this := NodeImp_Clear (store this))
      in store1(this := CopyNode (store1 node) (store1 this)))"

section \<open>Strings and scanning\<close>

subsection \<open>std::string searches\<close>

text \<open>
  A position is a natural number, and \<^verbatim>\<open>std::string::npos\<close> is \<open>None\<close>. The searches
  return \<^verbatim>\<open>npos\<close> when the start position is at or beyond the end of the string.
\<close>

abbreviation dquote :: char where "dquote \<equiv> CHR 0x22"
abbreviation squote :: char where "squote \<equiv> CHR 0x27"
abbreviation backslash :: char where "backslash \<equiv> CHR 0x5C"
abbreviation newline :: char where "newline \<equiv> CHR 0x0A"
abbreviation tab :: char where "tab \<equiv> CHR 0x09"
abbreviation creturn :: char where "creturn \<equiv> CHR 0x0D"

fun find_if :: "(char \<Rightarrow> bool) \<Rightarrow> string \<Rightarrow> nat option" where
  "find_if P [] = None"
| "find_if P (c # cs) = (if P c then Some 0 else map_option Suc (find_if P cs))"

definition find_first_of :: "string \<Rightarrow> string \<Rightarrow> nat \<Rightarrow> nat option" where
  "find_first_of input tokens pos =
     map_option (\<lambda>i. pos + i) (find_if (\<lambda>c. c \<in> set tokens) (drop pos input))"

definition find_first_not_of :: "string \<Rightarrow> string \<Rightarrow> nat \<Rightarrow> nat option" where
  "find_first_not_of input tokens pos =
     map_option (\<lambda>i. pos + i) (find_if (\<lambda>c. c \<notin> set tokens) (drop pos input))"

definition find_last_not_of :: "string \<Rightarrow> string \<Rightarrow> nat option" where
  "find_last_not_of input tokens =
     map_option (\<lambda>i. length input - 1 - i) (find_if (\<lambda>c. c \<notin> set tokens) (rev input))"

text \<open>\<^verbatim>\<open>substr(pos)\<close> and \<^verbatim>\<open>substr(pos, len)\<close>. Every call of the source has
  \<open>pos \<le> size\<close>, so none throws \<^verbatim>\<open>std::out_of_range\<close>.\<close>

definition substr_from :: "string \<Rightarrow> nat \<Rightarrow> string" where
  "substr_from input pos = drop pos input"

definition substr :: "string \<Rightarrow> nat \<Rightarrow> nat \<Rightarrow> string" where
  "substr input pos len = take len (drop pos input)"

text \<open>\<^verbatim>\<open>std::string(n, ' ')\<close>.\<close>

definition spaces :: "nat \<Rightarrow> string" where
  "spaces n = replicate n CHR '' ''"

text \<open>
  The lines that repeated \<^verbatim>\<open>std::getline\<close> calls read from a stream until \<^verbatim>\<open>eof()\<close>:
  the pieces between the newlines. A text that ends in a newline (and the empty text)
  gives a last, empty line, read by the call that hits the end of the stream.
\<close>

fun getlines :: "string \<Rightarrow> string list" where
  "getlines [] = [[]]"
| "getlines (c # cs) =
     (if c = newline then [] # getlines cs
      else (case getlines cs of l # ls \<Rightarrow> (c # l) # ls | [] \<Rightarrow> [[c]]))"

subsection \<open>FindQuote\<close>

text \<open>
  \<^verbatim>\<open>FindQuote(input, start, end, searchPos)\<close> returns whether it found a quoted span, and
  sets \<open>start\<close> and \<open>end\<close> (both \<^verbatim>\<open>npos\<close> at first; \<open>start\<close> stays set when only an
  opening quote was found). The search stops at \<open>"\<close> and at \<open>'\<close>, and only a \<open>"\<close> that
  no backslash precedes opens or closes a span.
\<close>

function FindQuote_loop ::
  "string \<Rightarrow> nat \<Rightarrow> bool \<Rightarrow> nat option \<Rightarrow> bool \<times> nat option \<times> nat option" where
  "FindQuote_loop input qPos foundStart start =
     (case find_first_of input [dquote, squote] qPos of
        None \<Rightarrow> (False, start, None)
      | Some q \<Rightarrow>
          (if input ! q = dquote \<and> (q = 0 \<or> input ! (q - 1) \<noteq> backslash) then
             (if \<not> foundStart then
                (if q + 1 = length input then (False, Some q, None)
                 else FindQuote_loop input (q + 1) True (Some q))
              else (True, start, Some q))
           else
             (if q + 1 = length input then (False, start, None)
              else FindQuote_loop input (q + 1) foundStart start)))"
  by pat_completeness auto
termination
proof -
  have bound: "find_if P xs = Some i \<Longrightarrow> i < length xs" for P xs i
    by (induction xs arbitrary: i) (auto split: if_splits)
  have step: "length input - Suc q < length input - qPos"
    if found: "find_first_of input tokens qPos = Some q" for input tokens qPos q
  proof -
    obtain i where "find_if (\<lambda>c. c \<in> set tokens) (drop qPos input) = Some i" and q: "q = qPos + i"
      using found by (auto simp: find_first_of_def)
    then have "i < length input - qPos" using bound by fastforce
    then show ?thesis using q by simp
  qed
  show ?thesis
    by (relation "measure (\<lambda>(input, qPos, foundStart, start). length input - qPos)")
      (auto dest: step)
qed

declare FindQuote_loop.simps [simp del]

definition FindQuote :: "string \<Rightarrow> nat \<Rightarrow> bool \<times> nat option \<times> nat option" where
  "FindQuote input searchPos = FindQuote_loop input searchPos False None"

subsection \<open>FindNotCited\<close>

text \<open>The first loop of \<^verbatim>\<open>FindNotCited\<close> collects every quoted span, searching on from
  the position after the last closing quote.\<close>

function FindNotCited_quotes :: "string \<Rightarrow> nat \<Rightarrow> (nat \<times> nat) list" where
  "FindNotCited_quotes input quoteEnd =
     (case FindQuote input quoteEnd of
        (found, start, end) \<Rightarrow>
          (if found then
             (case start of
                None \<Rightarrow> []
              | Some s \<Rightarrow>
                  (case end of
                     None \<Rightarrow> []
                   | Some e \<Rightarrow>
                       (s, e) # (if e + 1 = length input then []
                                 else FindNotCited_quotes input (e + 1))))
           else []))"
  by pat_completeness auto
termination
proof -
  have bound: "find_if P xs = Some i \<Longrightarrow> i < length xs" for P xs i
    by (induction xs arbitrary: i) (auto split: if_splits)
  have found: "qPos \<le> q \<and> q < length input"
    if f: "find_first_of input tokens qPos = Some q" for input tokens qPos q
  proof -
    obtain i where "find_if (\<lambda>c. c \<in> set tokens) (drop qPos input) = Some i" and q: "q = qPos + i"
      using f by (auto simp: find_first_of_def)
    then have "i < length input - qPos" using bound by fastforce
    then show ?thesis using q by simp
  qed
  have loop: "FindQuote_loop input qPos fs st = (True, s, Some e) \<Longrightarrow> qPos \<le> e \<and> e < length input"
    for input qPos fs st s e
  proof (induction input qPos fs st rule: FindQuote_loop.induct)
    case (1 input qPos foundStart start)
    note run = "1.prems" [unfolded FindQuote_loop.simps [of input qPos foundStart start]]
    show ?case
    proof (cases "find_first_of input [dquote, squote] qPos")
      case None
      then show ?thesis using run by simp
    next
      case (Some q)
      have b: "qPos \<le> q \<and> q < length input" using found [OF Some] .
      show ?thesis
      proof (cases "input ! q = dquote \<and> (q = 0 \<or> input ! (q - 1) \<noteq> backslash)")
        case True
        show ?thesis
        proof (cases foundStart)
          case True
          then show ?thesis using run Some \<open>input ! q = dquote \<and> (q = 0 \<or> input ! (q - 1) \<noteq> backslash)\<close> b
            by auto
        next
          case False
          show ?thesis
          proof (cases "q + 1 = length input")
            case True
            then show ?thesis
              using run Some False \<open>input ! q = dquote \<and> (q = 0 \<or> input ! (q - 1) \<noteq> backslash)\<close>
              by auto
          next
            case neq: False
            have "FindQuote_loop input (q + 1) True (Some q) = (True, s, Some e)"
              using run Some False neq \<open>input ! q = dquote \<and> (q = 0 \<or> input ! (q - 1) \<noteq> backslash)\<close>
              by auto
            then have "q + 1 \<le> e \<and> e < length input"
              using "1.IH"(1) [OF Some \<open>input ! q = dquote \<and> (q = 0 \<or> input ! (q - 1) \<noteq> backslash)\<close> False neq]
              by simp
            then show ?thesis using b by simp
          qed
        qed
      next
        case False
        show ?thesis
        proof (cases "q + 1 = length input")
          case True
          then show ?thesis using run Some False by auto
        next
          case neq: False
          have "FindQuote_loop input (q + 1) foundStart start = (True, s, Some e)"
            using run Some False neq by auto
          then have "q + 1 \<le> e \<and> e < length input"
            using "1.IH"(2) [OF Some False neq] by simp
          then show ?thesis using b by simp
        qed
      qed
    qed
  qed
  show ?thesis
    by (relation "measure (\<lambda>(input, quoteEnd). length input - quoteEnd)")
      (auto simp: FindQuote_def dest!: loop [OF sym])
qed

declare FindNotCited_quotes.simps [simp del]

text \<open>
  The second loop walks the spans with the position of the token. A token before the span
  is the result; a token up to the closing quote is replaced by the next token after it;
  every span looked at counts into \<^verbatim>\<open>preQuoteCount\<close>.
\<close>

fun FindNotCited_scan ::
  "string \<Rightarrow> char \<Rightarrow> nat \<Rightarrow> (nat \<times> nat) list \<Rightarrow> nat \<Rightarrow> nat option \<times> nat" where
  "FindNotCited_scan input token tokenPos [] preQuoteCount = (Some tokenPos, preQuoteCount)"
| "FindNotCited_scan input token tokenPos (currentQuote # quotes) preQuoteCount =
     (if tokenPos < fst currentQuote then (Some tokenPos, preQuoteCount)
      else if tokenPos \<le> snd currentQuote then
        (if tokenPos + 1 = length input then (None, preQuoteCount + 1)
         else (case find_first_of input [token] (tokenPos + 1) of
                 None \<Rightarrow> (None, preQuoteCount + 1)
               | Some tokenPos' \<Rightarrow>
                   FindNotCited_scan input token tokenPos' quotes (preQuoteCount + 1)))
      else FindNotCited_scan input token tokenPos quotes (preQuoteCount + 1))"

text \<open>\<^verbatim>\<open>FindNotCited(input, token, preQuoteCount)\<close>: the position, and \<^verbatim>\<open>preQuoteCount\<close>.\<close>

definition FindNotCited :: "string \<Rightarrow> char \<Rightarrow> nat option \<times> nat" where
  "FindNotCited input token =
     (case find_first_of input [token] 0 of
        None \<Rightarrow> (None, 0)
      | Some tokenPos \<Rightarrow>
          (let quotes = FindNotCited_quotes input 0
           in if length quotes = 0 then (Some tokenPos, 0)
              else FindNotCited_scan input token tokenPos quotes 0))"

text \<open>\<^verbatim>\<open>FindNotCited(input, token)\<close>, which drops the count.\<close>

definition FindNotCited_pos :: "string \<Rightarrow> char \<Rightarrow> nat option" where
  "FindNotCited_pos input token = fst (FindNotCited input token)"

subsection \<open>LineFolding\<close>

text \<open>
  The state of the loop of \<^verbatim>\<open>LineFolding\<close> is \<open>currentPos\<close>, \<open>lastPos\<close>, \<open>spacePos\<close> and
  the pieces so far. \<open>spacePos\<close> is only searched again while \<open>currentPos\<close> is inside the
  input. \<open>lastPos + maxLength\<close> cannot wrap around: the loop reaches a second turn only
  with \<open>maxLength\<close> below the size of the input.
\<close>

function LineFolding_loop ::
  "string \<Rightarrow> nat \<Rightarrow> nat \<Rightarrow> nat \<Rightarrow> nat option \<Rightarrow> string list \<Rightarrow> string list" where
  "LineFolding_loop input maxLength currentPos lastPos spacePos folded =
     (if currentPos < length input then
        (let currentPos' = lastPos + maxLength;
             spacePos' = (if currentPos' < length input
                          then find_first_of input '' '' currentPos' else spacePos)
         in case spacePos' of
              None \<Rightarrow>
                (let endLine = substr_from input lastPos
                 in if length endLine \<noteq> 0 then folded @ [endLine] else folded)
            | Some sp \<Rightarrow>
                (if currentPos' \<ge> length input then
                   (let endLine = substr_from input lastPos
                    in if length endLine \<noteq> 0 then folded @ [endLine] else folded)
                 else LineFolding_loop input maxLength currentPos' (sp + 1) spacePos'
                        (folded @ [substr input lastPos (sp - lastPos)])))
      else folded)"
  by pat_completeness auto
termination
proof -
  have bound: "find_if P xs = Some i \<Longrightarrow> i < length xs" for P xs i
    by (induction xs arbitrary: i) (auto split: if_splits)
  have found: "qPos \<le> q \<and> q < length input"
    if f: "find_first_of input tokens qPos = Some q" for input tokens qPos q
  proof -
    obtain i where "find_if (\<lambda>c. c \<in> set tokens) (drop qPos input) = Some i" and q: "q = qPos + i"
      using f by (auto simp: find_first_of_def)
    then have "i < length input - qPos" using bound by fastforce
    then show ?thesis using q by simp
  qed
  have step: "length input - Suc sp < length input - lastPos"
    if "Some sp = find_first_of input tokens (lastPos + maxLength)"
    for input tokens lastPos maxLength sp
    using found [OF that [symmetric]] by arith
  show ?thesis
    by (relation "measure (\<lambda>(input, maxLength, currentPos, lastPos, spacePos, folded). length input - lastPos)")
      (auto split: if_splits intro: step)
qed

declare LineFolding_loop.simps [simp del]

text \<open>\<^verbatim>\<open>LineFolding(input, folded, maxLength)\<close> clears \<open>folded\<close>, fills it and returns its
  size; the model returns \<open>folded\<close>.\<close>

definition LineFolding :: "string \<Rightarrow> nat \<Rightarrow> string list" where
  "LineFolding input maxLength =
     (if length input = 0 then [] else LineFolding_loop input maxLength 0 0 None [])"

section \<open>Exceptions\<close>

text \<open>
  The exception messages of the source (the \<^verbatim>\<open>g_Error...\<close> strings) and its three
  exception classes. The line and column that \<^verbatim>\<open>ExceptionMessage\<close> formats into the text
  are not modelled.
\<close>

datatype message =
    g_ErrorInvalidCharacter
  | g_ErrorKeyMissing
  | g_ErrorKeyIncorrect
  | g_ErrorValueIncorrect
  | g_ErrorTabInOffset
  | g_ErrorBlockSequenceNotAllowed
  | g_ErrorUnexpectedDocumentEnd
  | g_ErrorDiffEntryNotAllowed
  | g_ErrorIncorrectOffset
  | g_ErrorSequenceError
  | g_ErrorCannotOpenFile
  | g_ErrorIndentation

datatype Exception =
    InternalException message
  | ParsingException message
  | OperationException message

section \<open>The emitter\<close>

record SerializeConfig =
  SpaceIndentation :: nat
  ScalarMaxLength :: nat
  SequencMapNewline :: bool
  MapScalarNewline :: bool

definition KeyShouldBeCited :: "string \<Rightarrow> bool" where
  "KeyShouldBeCited key = (find_first_of key (dquote # '':{}[],&*#?|-<>=!%@'') 0 \<noteq> None)"

text \<open>
  \<^verbatim>\<open>AddEscapeTokens\<close>: for each token in turn, every occurrence of the token gets a
  backslash in front; the search goes on two places after the occurrence.
\<close>

function AddEscapeTokens_loop :: "string \<Rightarrow> char \<Rightarrow> nat option \<Rightarrow> string" where
  "AddEscapeTokens_loop input token found =
     (case found of
        None \<Rightarrow> input
      | Some f \<Rightarrow>
          AddEscapeTokens_loop (take f input @ [backslash, token] @ drop (f + 1) input) token
            (find_first_of (take f input @ [backslash, token] @ drop (f + 1) input) [token] (f + 2)))"
  by pat_completeness auto
termination
proof -
  have bound: "find_if P xs = Some i \<Longrightarrow> i < length xs" for P xs i
    by (induction xs arbitrary: i) (auto split: if_splits)
  have found: "qPos \<le> q \<and> q < length input"
    if f: "find_first_of input tokens qPos = Some q" for input tokens qPos q
  proof -
    obtain i where "find_if (\<lambda>c. c \<in> set tokens) (drop qPos input) = Some i" and q: "q = qPos + i"
      using f by (auto simp: find_first_of_def)
    then have "i < length input - qPos" using bound by fastforce
    then show ?thesis using q by simp
  qed
  have step: "(case find_first_of s tokens (Suc (Suc f)) of None \<Rightarrow> 0 | Some f' \<Rightarrow> Suc (n - f'))
              < Suc (length input - f)"
    if len: "length s = n" "n = Suc (Suc (min (length input) f + (length input - Suc f)))"
    for s tokens f n and input :: string
  proof (cases "find_first_of s tokens (Suc (Suc f))")
    case None
    then show ?thesis by simp
  next
    case (Some f')
    from found [OF Some] len show ?thesis using Some by (auto simp: min_def split: if_splits)
  qed
  show ?thesis
    by (relation "measure (\<lambda>(input, token, found).
          case found of None \<Rightarrow> 0 | Some f \<Rightarrow> Suc (length input - f))")
      (auto intro!: step [OF _ refl])
qed

declare AddEscapeTokens_loop.simps [simp del]

fun AddEscapeTokens :: "string \<Rightarrow> string \<Rightarrow> string" where
  "AddEscapeTokens input [] = input"
| "AddEscapeTokens input (token # tokens) =
     AddEscapeTokens (AddEscapeTokens_loop input token (find_first_of input [token] 0)) tokens"

text \<open>
  \<^verbatim>\<open>SerializeLoop\<close> writes to the stream; the model returns the text written. The loops
  over the children carry \<open>useLevel\<close> and \<open>count\<close> as the source does.
  \<^verbatim>\<open>node.As<std::string>()\<close> is a template of the header; it yields \<^verbatim>\<open>AsString()\<close>.
\<close>

definition SerializeLoop_scalar :: "string \<Rightarrow> bool \<Rightarrow> nat \<Rightarrow> SerializeConfig \<Rightarrow> string" where
  "SerializeLoop_scalar val useLevel level config =
     (if length val = 0 then [newline]
      else
        (let lines0 = getlines val;
             endNewline = (length (last lines0) = 0);
             lines1 = (if endNewline then butlast lines0 else lines0)
         in if length lines1 > 1 then
              ''|'' @ (if endNewline = False then ''-'' else []) @ [newline]
                @ concat (map (\<lambda>l. spaces level @ l @ [newline]) lines1)
            else
              (let frontLine = hd lines1
               in if ScalarMaxLength config = 0 \<or> length (hd lines1) \<le> ScalarMaxLength config
                     \<or> length (LineFolding frontLine (ScalarMaxLength config)) = 1
                  then (if useLevel then spaces level else []) @ val @ [newline]
                  else
                    ''>'' @ (if endNewline = False then ''-'' else []) @ [newline]
                      @ concat (map (\<lambda>l. spaces level @ l @ [newline])
                                  (LineFolding frontLine (ScalarMaxLength config))))))"

fun SerializeLoop :: "Node \<Rightarrow> bool \<Rightarrow> nat \<Rightarrow> SerializeConfig \<Rightarrow> string"
  and SerializeLoop_sequence :: "(string \<times> Node) list \<Rightarrow> nat \<Rightarrow> SerializeConfig \<Rightarrow> string"
  and SerializeLoop_map :: "(string \<times> Node) list \<Rightarrow> bool \<Rightarrow> nat \<Rightarrow> nat \<Rightarrow> SerializeConfig \<Rightarrow> string"
  where
  "SerializeLoop NoneNode useLevel level config = []"
| "SerializeLoop (ScalarNode s) useLevel level config =
     SerializeLoop_scalar (Node_AsString (ScalarNode s)) useLevel level config"
| "SerializeLoop (SequenceNode m) useLevel level config =
     SerializeLoop_sequence (map (\<lambda>e. ([], snd e)) m) level config"
| "SerializeLoop (MapNode m) useLevel level config =
     SerializeLoop_map m useLevel 0 level config"
| "SerializeLoop_sequence [] level config = []"
| "SerializeLoop_sequence (it # its) level config =
     (if Node_IsNone (snd it) then SerializeLoop_sequence its level config
      else
        spaces level @ ''- ''
        @ (if Node_IsSequence (snd it) \<or> (Node_IsMap (snd it) \<and> SequencMapNewline config = True)
           then [newline] @ SerializeLoop (snd it) True (level + 2) config
           else SerializeLoop (snd it) False (level + 2) config)
        @ SerializeLoop_sequence its level config)"
| "SerializeLoop_map [] useLevel count level config = []"
| "SerializeLoop_map (it # its) useLevel count level config =
     (if Node_IsNone (snd it) then SerializeLoop_map its useLevel count level config
      else
        (if useLevel \<or> count > 0 then spaces level else [])
        @ (let key = AddEscapeTokens (fst it) [backslash, dquote]
           in if KeyShouldBeCited key then [dquote] @ key @ [dquote] @ '': '' else key @ '': '')
        @ (if Node_IsScalar (snd it) = False \<or> (Node_IsScalar (snd it) \<and> MapScalarNewline config)
           then [newline] @ SerializeLoop (snd it) True (level + SpaceIndentation config) config
           else SerializeLoop (snd it) False (level + SpaceIndentation config) config)
        @ SerializeLoop_map its True (count + 1) level config)"


section \<open>The parser\<close>

subsection \<open>ReaderLine\<close>

text \<open>
  A \<^verbatim>\<open>ReaderLine\<close> has the data of the line, its offset, its type and its flags.
  \<^verbatim>\<open>Flags\<close> is a bit mask over the three values of \<^verbatim>\<open>eFlag\<close>, modelled as the set of the
  flags that are set. The line number \<^verbatim>\<open>No\<close> only reaches the exception messages and
  \<^verbatim>\<open>NextLine\<close> only the debug printer; both are left out, and the successor of a line is
  the next element of the list.
\<close>

datatype eFlag = LiteralScalarFlag | FoldedScalarFlag | ScalarNewlineFlag

record ReaderLine =
  Data :: string
  Offset :: nat
  Type :: eType
  Flags :: "eFlag set"

definition ReaderLine_new :: "string \<Rightarrow> nat \<Rightarrow> ReaderLine" where
  "ReaderLine_new data offset = \<lparr>Data = data, Offset = offset, Type = NoneType, Flags = {}\<rparr>"

definition SetFlag :: "ReaderLine \<Rightarrow> eFlag \<Rightarrow> ReaderLine" where
  "SetFlag l flag = l\<lparr>Flags := insert flag (Flags l)\<rparr>"

definition GetFlag :: "ReaderLine \<Rightarrow> eFlag \<Rightarrow> bool" where
  "GetFlag l flag = (flag \<in> Flags l)"

definition CopyScalarFlags :: "ReaderLine \<Rightarrow> ReaderLine \<Rightarrow> ReaderLine" where
  "CopyScalarFlags l from =
     l\<lparr>Flags := Flags l \<union> (Flags from \<inter> {LiteralScalarFlag, FoldedScalarFlag, ScalarNewlineFlag})\<rparr>"

text \<open>
  A parser function either returns, or throws an exception, or runs into undefined
  behaviour (\<^verbatim>\<open>PostProcessScalar\<close> dereferences \<^verbatim>\<open>m_Lines.end()\<close> when a block scalar
  indicator ends the input). The functions work on \<^verbatim>\<open>m_Lines\<close> and on the root in place,
  so a function that fails gives, with the failure, what it has made of them up to
  that point: \<open>Inl (f, m_Lines)\<close> in the two phases on the lines and \<open>Inl (f, node)\<close> in
  the phase that builds the tree.
\<close>

datatype failure = Throw Exception | UndefinedBehaviour

subsection \<open>ReadLines\<close>

text \<open>A byte is accepted when it is a tab or lies in 32..125 (\<^verbatim>\<open>char\<close> is signed in the
  source, so the bytes from 128 on are below 32 there).\<close>

definition invalid_character :: "char \<Rightarrow> bool" where
  "invalid_character c = (c \<noteq> tab \<and> (of_char c < (32::nat) \<or> of_char c > (125::nat)))"

text \<open>
  The first loop of \<^verbatim>\<open>ReadLines\<close>, over the lines of the stream. Its state is
  \<open>documentStartFound\<close> and \<^verbatim>\<open>m_Lines\<close>. \<^verbatim>\<open>ClearLines()\<close> empties \<^verbatim>\<open>m_Lines\<close>.
\<close>

fun ReadLines_loop ::
  "string list \<Rightarrow> bool \<Rightarrow> ReaderLine list \<Rightarrow> (failure \<times> ReaderLine list) + ReaderLine list" where
  "ReadLines_loop [] documentStartFound m_Lines = Inr m_Lines"
| "ReadLines_loop (raw # stream) documentStartFound m_Lines =
     (let line = (case FindNotCited_pos raw CHR ''#'' of
                    None \<Rightarrow> raw
                  | Some commentPos \<Rightarrow> take commentPos raw)
      in if documentStartFound = False \<and> line = ''---'' then ReadLines_loop stream True []
         else if line = ''...'' then Inr m_Lines
         else
           (let line' = (if length line \<noteq> 0 \<and> last line = creturn then butlast line else line)
            in if length line' = 0 then ReadLines_loop stream documentStartFound m_Lines
               else if list_ex invalid_character line'
                 then Inl (Throw (ParsingException g_ErrorInvalidCharacter), m_Lines)
               else ReadLines_loop stream documentStartFound (m_Lines @ [ReaderLine_new line' 0])))"

text \<open>The second loop: offsets, the tab check and trimming. A line of blanks only is
  erased. When a tab is found in the offset of a line, the lines before it are trimmed
  already and the line and those after it are not.\<close>

fun ReadLines_trim :: "ReaderLine list \<Rightarrow> (failure \<times> ReaderLine list) + ReaderLine list" where
  "ReadLines_trim [] = Inr []"
| "ReadLines_trim (pLine # m_Lines) =
     (let firstTabPos = find_first_of (Data pLine) [tab] 0;
          startOffset = find_first_not_of (Data pLine) [CHR '' '', tab] 0;
          endOffset = find_last_not_of (Data pLine) [CHR '' '', tab]
      in case startOffset of
           None \<Rightarrow> ReadLines_trim m_Lines
         | Some so \<Rightarrow>
             (if (case firstTabPos of None \<Rightarrow> False | Some ft \<Rightarrow> ft < so)
              then Inl (Throw (ParsingException g_ErrorTabInOffset), pLine # m_Lines)
              else
                (let pLine' = pLine\<lparr>Data := (case endOffset of
                                                  None \<Rightarrow> substr_from (Data pLine) so
                                                | Some eo \<Rightarrow> substr (substr_from (Data pLine) so) 0 (eo - so + 1)),
                                      Offset := so\<rparr>
                 in case ReadLines_trim m_Lines of
                      Inl (f, ls) \<Rightarrow> Inl (f, pLine' # ls)
                    | Inr ls \<Rightarrow> Inr (pLine' # ls))))"

definition ReadLines :: "string \<Rightarrow> (failure \<times> ReaderLine list) + ReaderLine list" where
  "ReadLines stream =
     (case ReadLines_loop (getlines stream) False [] of
        Inl e \<Rightarrow> Inl e
      | Inr m_Lines \<Rightarrow> ReadLines_trim m_Lines)"

subsection \<open>PostProcessLines\<close>

definition IsSequenceStart :: "string \<Rightarrow> bool" where
  "IsSequenceStart data =
     (if length data = 0 \<or> data ! 0 \<noteq> CHR ''-'' then False
      else if length data \<ge> 2 \<and> data ! 1 \<noteq> CHR '' '' then False
      else True)"

text \<open>\<^verbatim>\<open>RemoveAllEscapeTokens\<close>: every backslash that is not the last character is
  dropped and the character after it is kept; the search goes on behind that character.\<close>

function RemoveAllEscapeTokens_loop :: "string \<Rightarrow> nat option \<Rightarrow> string" where
  "RemoveAllEscapeTokens_loop input found =
     (case found of
        None \<Rightarrow> input
      | Some f \<Rightarrow>
          (if f + 1 = length input then input
           else RemoveAllEscapeTokens_loop (take f input @ [input ! (f + 1)] @ drop (f + 2) input)
                  (find_first_of (take f input @ [input ! (f + 1)] @ drop (f + 2) input)
                     [backslash] (f + 1))))"
  by pat_completeness auto
termination
proof -
  have bound: "find_if P xs = Some i \<Longrightarrow> i < length xs" for P xs i
    by (induction xs arbitrary: i) (auto split: if_splits)
  have found: "qPos \<le> q \<and> q < length input"
    if f: "find_first_of input tokens qPos = Some q" for input tokens qPos q
  proof -
    obtain i where "find_if (\<lambda>c. c \<in> set tokens) (drop qPos input) = Some i" and q: "q = qPos + i"
      using f by (auto simp: find_first_of_def)
    then have "i < length input - qPos" using bound by fastforce
    then show ?thesis using q by simp
  qed
  have step: "(case find_first_of s tokens (Suc f) of None \<Rightarrow> 0 | Some f' \<Rightarrow> Suc (n - f'))
              < Suc (length input - f)"
    if len: "length s = n" "n = Suc (min (length input) f + (length input - Suc (Suc f)))"
      "Suc f \<noteq> length input"
    for s tokens f n and input :: string
  proof (cases "find_first_of s tokens (Suc f)")
    case None
    then show ?thesis by simp
  next
    case (Some f')
    from found [OF Some] len show ?thesis using Some by (auto simp: min_def split: if_splits)
  qed
  show ?thesis
    by (relation "measure (\<lambda>(input, found).
          case found of None \<Rightarrow> 0 | Some f \<Rightarrow> Suc (length input - f))")
      (auto intro!: step [OF _ refl])
qed

declare RemoveAllEscapeTokens_loop.simps [simp del]

definition RemoveAllEscapeTokens :: "string \<Rightarrow> string" where
  "RemoveAllEscapeTokens input =
     RemoveAllEscapeTokens_loop input (find_first_of input [backslash] 0)"

text \<open>
  \<^verbatim>\<open>PostProcessLines\<close> walks \<^verbatim>\<open>m_Lines\<close> with an iterator and inserts and erases lines
  around it. The list is split at the iterator: \<open>front\<close> holds the lines before it, the
  nearest first, and the second list starts with the line under the iterator. Each of the
  three steps returns the two lists as it leaves them.
\<close>

definition PostProcessSequence ::
  "ReaderLine list \<Rightarrow> ReaderLine \<Rightarrow> ReaderLine list \<Rightarrow> bool \<times> ReaderLine list \<times> ReaderLine list" where
  "PostProcessSequence front pLine after =
     (if IsSequenceStart (Data pLine) = False then (False, front, pLine # after)
      else
        (case find_first_not_of (Data pLine) [CHR '' '', tab] 1 of
           None \<Rightarrow> (True, pLine\<lparr>Type := SequenceType\<rparr> # front, after)
         | Some valueStart \<Rightarrow>
             (False,
              pLine\<lparr>Type := SequenceType, Data := []\<rparr> # front,
              ReaderLine_new (substr_from (Data pLine) valueStart) (Offset pLine + valueStart) # after)))"

definition PostProcessMapping ::
  "ReaderLine list \<Rightarrow> ReaderLine \<Rightarrow> ReaderLine list \<Rightarrow>
   (failure \<times> ReaderLine list) + (bool \<times> ReaderLine list \<times> ReaderLine list)" where
  "PostProcessMapping front pLine after =
     (case FindNotCited (Data pLine) CHR '':'' of
        (None, preKeyQuotes) \<Rightarrow> Inr (False, front, pLine # after)
      | (Some tokenPos, preKeyQuotes) \<Rightarrow>
          (if preKeyQuotes > 1
           then Inl (Throw (ParsingException g_ErrorKeyIncorrect), rev front @ pLine # after)
           else
             (case find_last_not_of (substr (Data pLine) 0 tokenPos) [CHR '' '', tab] of
                None \<Rightarrow> Inl (Throw (ParsingException g_ErrorKeyMissing),
                             rev front @ pLine\<lparr>Type := MapType\<rparr> # after)
              | Some keyEnd \<Rightarrow>
                  (let key = take (keyEnd + 1) (substr (Data pLine) 0 tokenPos)
                   in if preKeyQuotes = 1 \<and> (hd key \<noteq> dquote \<or> last key \<noteq> dquote)
                      then Inl (Throw (ParsingException g_ErrorKeyIncorrect),
                                rev front @ pLine\<lparr>Type := MapType\<rparr> # after)
                      else
                        (let key' = RemoveAllEscapeTokens
                                      (if preKeyQuotes = 1 then substr key 1 (length key - 2) else key);
                             valueStart = (if tokenPos + 1 \<noteq> length (Data pLine)
                                           then find_first_not_of (Data pLine) [CHR '' '', tab] (tokenPos + 1)
                                           else None);
                             val = (case valueStart of
                                      None \<Rightarrow> []
                                    | Some vs \<Rightarrow> substr_from (Data pLine) vs)
                         in if IsSequenceStart val = True
                            then Inl (Throw (ParsingException g_ErrorBlockSequenceNotAllowed),
                                      rev front @ pLine\<lparr>Type := MapType\<rparr> # after)
                            else
                              (let pLine' = pLine\<lparr>Type := MapType, Data := key'\<rparr>
                               in if length val \<noteq> 0 then
                                    (if val = ''|'' then
                                       Inr (False,
                                            SetFlag (SetFlag pLine' LiteralScalarFlag) ScalarNewlineFlag # front,
                                            after)
                                     else if val = ''>'' then
                                       Inr (False,
                                            SetFlag (SetFlag pLine' FoldedScalarFlag) ScalarNewlineFlag # front,
                                            after)
                                     else if val = ''|-'' then
                                       Inr (False, SetFlag pLine' LiteralScalarFlag # front, after)
                                     else if val = ''>-'' then
                                       Inr (False, SetFlag pLine' FoldedScalarFlag # front, after)
                                     else if after \<noteq> [] \<and> Offset (hd after) > Offset pLine
                                       then Inl (Throw (ParsingException g_ErrorIncorrectOffset),
                                                 rev front @ pLine' # after)
                                     else
                                       (case FindQuote val 0 of
                                          (found, quoteStart, quoteEnd) \<Rightarrow>
                                            (if found \<or> hd val = dquote then
                                               (if quoteStart = Some 0 \<and> quoteEnd \<noteq> Some (length val - 1)
                                                then Inl (Throw (ParsingException g_ErrorValueIncorrect),
                                                          rev front @ pLine' # after)
                                                else Inr (False, pLine' # front,
                                                          ReaderLine_new (substr val 1 (length val - 2))
                                                            (case valueStart of Some vs \<Rightarrow> vs | None \<Rightarrow> 0)
                                                          # after))
                                             else Inr (False, pLine' # front,
                                                       ReaderLine_new val
                                                         (case valueStart of Some vs \<Rightarrow> vs | None \<Rightarrow> 0)
                                                       # after))))
                                  else if after \<noteq> [] \<and> Offset (hd after) \<le> Offset pLine then
                                    Inr (True,
                                         (ReaderLine_new [] (tokenPos + 1))\<lparr>Type := ScalarType\<rparr> # pLine' # front,
                                         after)
                                  else Inr (True, pLine' # front, after)))))))"

text \<open>The merging loop of \<^verbatim>\<open>PostProcessScalar\<close>: the following lines that are not
  indented less are appended to the scalar and erased.\<close>

fun PostProcessScalar_merge :: "ReaderLine \<Rightarrow> ReaderLine list \<Rightarrow> ReaderLine \<times> ReaderLine list" where
  "PostProcessScalar_merge pLine [] =
     (if GetFlag pLine ScalarNewlineFlag then pLine\<lparr>Data := Data pLine @ [newline]\<rparr> else pLine, [])"
| "PostProcessScalar_merge pLine (pNextLine # after) =
     (if Offset pNextLine < Offset pLine then
        (if GetFlag pLine ScalarNewlineFlag then pLine\<lparr>Data := Data pLine @ [newline]\<rparr> else pLine,
         pNextLine # after)
      else
        PostProcessScalar_merge
          (pLine\<lparr>Data := Data pLine
                    @ (if GetFlag pLine LiteralScalarFlag then [newline]
                       else if GetFlag pLine FoldedScalarFlag then '' '' else [])
                    @ spaces (Offset pNextLine - Offset pLine)
                    @ Data pNextLine\<rparr>)
          after)"

text \<open>\<^verbatim>\<open>PostProcessScalar\<close>. It is also reached with the iterator at \<^verbatim>\<open>end()\<close>, after a
  map entry whose value is a block scalar indicator on the last line; the source then
  dereferences \<^verbatim>\<open>end()\<close>.\<close>

definition PostProcessScalar ::
  "ReaderLine list \<Rightarrow> ReaderLine list \<Rightarrow>
   (failure \<times> ReaderLine list) + (ReaderLine list \<times> ReaderLine list)" where
  "PostProcessScalar front lines =
     (case lines of
        [] \<Rightarrow> Inl (UndefinedBehaviour, rev front)
      | pLine # after \<Rightarrow>
          (let pLine1 = pLine\<lparr>Type := ScalarType\<rparr>;
               pLine2 = (case front of [] \<Rightarrow> pLine1 | pPrevLine # _ \<Rightarrow> CopyScalarFlags pLine1 pPrevLine)
           in if GetFlag pLine2 FoldedScalarFlag \<or> GetFlag pLine2 LiteralScalarFlag then
                (case PostProcessScalar_merge pLine2 after of
                   (pLine3, after') \<Rightarrow> Inr (pLine3 # front, after'))
              else Inr (pLine2 # front, after)))"

text \<open>One turn of the loop of \<^verbatim>\<open>PostProcessLines\<close>: sequence, else mapping, else scalar.\<close>

definition PostProcessLines_step ::
  "ReaderLine list \<Rightarrow> ReaderLine \<Rightarrow> ReaderLine list \<Rightarrow>
   (failure \<times> ReaderLine list) + (ReaderLine list \<times> ReaderLine list)" where
  "PostProcessLines_step front pLine after =
     (case PostProcessSequence front pLine after of
        (True, front1, lines1) \<Rightarrow> Inr (front1, lines1)
      | (False, front1, lines1) \<Rightarrow>
          (case lines1 of
             [] \<Rightarrow> Inl (UndefinedBehaviour, rev front1)
           | pLine1 # after1 \<Rightarrow>
               (case PostProcessMapping front1 pLine1 after1 of
                  Inl e \<Rightarrow> Inl e
                | Inr (True, front2, lines2) \<Rightarrow> Inr (front2, lines2)
                | Inr (False, front2, lines2) \<Rightarrow> PostProcessScalar front2 lines2)))"

text \<open>The loop runs until the iterator is at \<^verbatim>\<open>end()\<close>; the result is the list in its
  order.\<close>

function PostProcessLines_loop ::
  "ReaderLine list \<Rightarrow> ReaderLine list \<Rightarrow> (failure \<times> ReaderLine list) + ReaderLine list" where
  "PostProcessLines_loop front [] = Inr (rev front)"
| "PostProcessLines_loop front (pLine # after) =
     (case PostProcessLines_step front pLine after of
        Inl e \<Rightarrow> Inl e
      | Inr (front', lines') \<Rightarrow> PostProcessLines_loop front' lines')"
  by pat_completeness auto
termination
proof -
  have merge: "length (snd (PostProcessScalar_merge l ls)) \<le> length ls" for l ls
    by (induction l ls rule: PostProcessScalar_merge.induct) auto
  have scalar: "length ls' < length ls"
    if "PostProcessScalar b ls = Inr (b', ls')" for b ls b' ls'
  proof (cases ls)
    case Nil
    then show ?thesis using that by (simp add: PostProcessScalar_def)
  next
    case (Cons l after)
    show ?thesis
      using that merge [of "CopyScalarFlags (l\<lparr>Type := ScalarType\<rparr>) (hd b)" after]
        merge [of "l\<lparr>Type := ScalarType\<rparr>" after]
      by (auto simp: PostProcessScalar_def Cons Let_def split: if_splits list.splits prod.splits)
  qed
  have mapping: "length ls' \<le> Suc (length after) \<and> (handled \<longrightarrow> length ls' \<le> length after)"
    if "PostProcessMapping b l after = Inr (handled, b', ls')" for b l after handled b' ls'
    using that
    by (auto simp: PostProcessMapping_def Let_def split: prod.splits option.splits if_splits)
  have step: "length ls' < Suc (length after)"
    if "PostProcessLines_step b l after = Inr (b', ls')" for b l after b' ls'
  proof (cases "IsSequenceStart (Data l)")
    case False
    then have s: "PostProcessSequence b l after = (False, b, l # after)"
      by (simp add: PostProcessSequence_def)
    show ?thesis
    proof (cases "PostProcessMapping b l after")
      case (Inl e)
      then show ?thesis using that s by (simp add: PostProcessLines_step_def)
    next
      case (Inr r)
      obtain handled b2 ls2 where r: "r = (handled, b2, ls2)" by (cases r)
      show ?thesis
      proof (cases handled)
        case True
        then show ?thesis using that s Inr r mapping [of b l after handled b2 ls2]
          by (auto simp: PostProcessLines_step_def)
      next
        case False
        then have "PostProcessScalar b2 ls2 = Inr (b', ls')"
          using that s Inr r by (simp add: PostProcessLines_step_def)
        from scalar [OF this] show ?thesis
          using Inr r mapping [of b l after handled b2 ls2] by simp
      qed
    qed
  next
    case True
    show ?thesis
    proof (cases "find_first_not_of (Data l) [CHR '' '', tab] 1")
      case None
      then show ?thesis using that True by (auto simp: PostProcessLines_step_def PostProcessSequence_def)
    next
      case (Some vs)
      let ?b1 = "l\<lparr>Type := SequenceType, Data := []\<rparr> # b"
      let ?l1 = "ReaderLine_new (substr_from (Data l) vs) (Offset l + vs)"
      have s: "PostProcessSequence b l after = (False, ?b1, ?l1 # after)"
        using True Some by (simp add: PostProcessSequence_def)
      show ?thesis
      proof (cases "PostProcessMapping ?b1 ?l1 after")
        case (Inl e)
        then show ?thesis using that s by (simp add: PostProcessLines_step_def)
      next
        case (Inr r)
        obtain handled b2 ls2 where r: "r = (handled, b2, ls2)" by (cases r)
        show ?thesis
        proof (cases handled)
          case True
          then show ?thesis using that s Inr r mapping [of ?b1 ?l1 after handled b2 ls2]
            by (auto simp: PostProcessLines_step_def)
        next
          case False
          then have "PostProcessScalar b2 ls2 = Inr (b', ls')"
            using that s Inr r by (simp add: PostProcessLines_step_def)
          from scalar [OF this] show ?thesis
            using Inr r mapping [of ?b1 ?l1 after handled b2 ls2] by simp
        qed
      qed
    qed
  qed
  show ?thesis
    by (relation "measure (\<lambda>(front, lines). length lines)") (auto dest: step)
qed

declare PostProcessLines_loop.simps [simp del]

text \<open>\<^verbatim>\<open>PostProcessLines\<close>: the loop, then the check that the last line is a scalar.\<close>

definition PostProcessLines :: "ReaderLine list \<Rightarrow> (failure \<times> ReaderLine list) + ReaderLine list" where
  "PostProcessLines m_Lines =
     (case PostProcessLines_loop [] m_Lines of
        Inl e \<Rightarrow> Inl e
      | Inr ls \<Rightarrow>
          (if length ls \<noteq> 0 \<and> Type (last ls) \<noteq> ScalarType
           then Inl (Throw (ParsingException g_ErrorUnexpectedDocumentEnd), ls)
           else Inr ls))"

subsection \<open>Building the tree\<close>

text \<open>
  \<^verbatim>\<open>ProcessSequence\<close>, \<^verbatim>\<open>ProcessMap\<close> and \<^verbatim>\<open>ProcessScalar\<close> take the node to fill and the
  iterator, by reference; here they take the node and the lines from the iterator on, and
  return the node and the lines left. The child a call fills is read from the node
  (\<^verbatim>\<open>PushBack\<close>, \<^verbatim>\<open>operator[]\<close>) and stored back when the call returns, or when it
  throws: the node that comes with a failure holds every child added and filled before
  the exception.
\<close>

definition ProcessScalar ::
  "Node \<Rightarrow> ReaderLine list \<Rightarrow> (failure \<times> Node) + (Node \<times> ReaderLine list)" where
  "ProcessScalar node lines =
     (case lines of
        [] \<Rightarrow> Inl (UndefinedBehaviour, node)
      | pLine # it \<Rightarrow> Inr (Node_assign_string node (Data pLine), it))"

function ProcessSequence ::
    "Node \<Rightarrow> ReaderLine list \<Rightarrow> (failure \<times> Node) + (Node \<times> ReaderLine list)"
  and ProcessMap ::
    "Node \<Rightarrow> ReaderLine list \<Rightarrow> (failure \<times> Node) + (Node \<times> ReaderLine list)" where
  "ProcessSequence node [] = Inr (node, [])"
| "ProcessSequence node (pLine # it) =
     (case it of
        [] \<Rightarrow> Inl (Throw (InternalException g_ErrorUnexpectedDocumentEnd), fst (Node_PushBack node))
      | valueLine # _ \<Rightarrow>
          (case (case Type valueLine of
                   SequenceType \<Rightarrow>
                     ProcessSequence (Node_get_child (fst (Node_PushBack node)) (snd (Node_PushBack node))) it
                 | MapType \<Rightarrow>
                     ProcessMap (Node_get_child (fst (Node_PushBack node)) (snd (Node_PushBack node))) it
                 | ScalarType \<Rightarrow>
                     ProcessScalar (Node_get_child (fst (Node_PushBack node)) (snd (Node_PushBack node))) it
                 | NoneType \<Rightarrow>
                     Inr (Node_get_child (fst (Node_PushBack node)) (snd (Node_PushBack node)), it)) of
             Inl (f, childNode) \<Rightarrow>
               Inl (f, Node_put_child (fst (Node_PushBack node)) (snd (Node_PushBack node)) childNode)
           | Inr (childNode, it') \<Rightarrow>
               (case it' of
                  [] \<Rightarrow> Inr (Node_put_child (fst (Node_PushBack node)) (snd (Node_PushBack node)) childNode, [])
                | pNextLine # _ \<Rightarrow>
                    (if Offset pNextLine < Offset pLine
                     then Inr (Node_put_child (fst (Node_PushBack node)) (snd (Node_PushBack node)) childNode, it')
                     else if Offset pNextLine > Offset pLine
                     then Inl (Throw (ParsingException g_ErrorIncorrectOffset),
                               Node_put_child (fst (Node_PushBack node)) (snd (Node_PushBack node)) childNode)
                     else if Type pNextLine \<noteq> Type pLine
                     then Inl (Throw (InternalException g_ErrorDiffEntryNotAllowed),
                               Node_put_child (fst (Node_PushBack node)) (snd (Node_PushBack node)) childNode)
                     else ProcessSequence
                            (Node_put_child (fst (Node_PushBack node)) (snd (Node_PushBack node)) childNode)
                            it'))))"
| "ProcessMap node [] = Inr (node, [])"
| "ProcessMap node (pLine # it) =
     (case it of
        [] \<Rightarrow> Inl (Throw (InternalException g_ErrorUnexpectedDocumentEnd),
                   fst (Node_index_key node (Data pLine)))
      | valueLine # _ \<Rightarrow>
          (case (case Type valueLine of
                   SequenceType \<Rightarrow> ProcessSequence (snd (Node_index_key node (Data pLine))) it
                 | MapType \<Rightarrow> ProcessMap (snd (Node_index_key node (Data pLine))) it
                 | ScalarType \<Rightarrow> ProcessScalar (snd (Node_index_key node (Data pLine))) it
                 | NoneType \<Rightarrow> Inr (snd (Node_index_key node (Data pLine)), it)) of
             Inl (f, childNode) \<Rightarrow>
               Inl (f, Node_put_child_key (fst (Node_index_key node (Data pLine))) (Data pLine) childNode)
           | Inr (childNode, it') \<Rightarrow>
               (case it' of
                  [] \<Rightarrow> Inr (Node_put_child_key (fst (Node_index_key node (Data pLine))) (Data pLine) childNode, [])
                | pNextLine # _ \<Rightarrow>
                    (if Offset pNextLine < Offset pLine
                     then Inr (Node_put_child_key (fst (Node_index_key node (Data pLine))) (Data pLine) childNode, it')
                     else if Offset pNextLine > Offset pLine
                     then Inl (Throw (ParsingException g_ErrorIncorrectOffset),
                               Node_put_child_key (fst (Node_index_key node (Data pLine))) (Data pLine) childNode)
                     else if Type pNextLine \<noteq> Type pLine
                     then Inl (Throw (InternalException g_ErrorDiffEntryNotAllowed),
                               Node_put_child_key (fst (Node_index_key node (Data pLine))) (Data pLine) childNode)
                     else ProcessMap
                            (Node_put_child_key (fst (Node_index_key node (Data pLine))) (Data pLine) childNode)
                            it'))))"
  by pat_completeness auto


termination
proof -
  have shorter:
    "ProcessSequence_ProcessMap_dom (Inl (n, ls)) \<Longrightarrow>
       (\<forall>n' ls'. ProcessSequence n ls = Inr (n', ls') \<longrightarrow> length ls' \<le> length ls)"
    "ProcessSequence_ProcessMap_dom (Inr (n, ls)) \<Longrightarrow>
       (\<forall>n' ls'. ProcessMap n ls = Inr (n', ls') \<longrightarrow> length ls' \<le> length ls)"
    for n ls
  proof (induction n ls and n ls rule: ProcessSequence_ProcessMap.pinduct)
    case (1 node)
    then show ?case by (simp add: ProcessSequence.psimps)
  next
    case (2 node pLine it)
    show ?case
    proof (intro allI impI)
      fix n' ls'
      assume r: "ProcessSequence node (pLine # it) = Inr (n', ls')"
      note r' = r [unfolded ProcessSequence.psimps(2) [OF "2.hyps"]]
      obtain valueLine it0 where it: "it = valueLine # it0" using r' by (cases it) auto
      let ?child = "Node_get_child (fst (Node_PushBack node)) (snd (Node_PushBack node))"
      let ?inner = "case Type valueLine of
                     NoneType \<Rightarrow> Inr (?child, it)
                   | SequenceType \<Rightarrow> ProcessSequence ?child it
                   | MapType \<Rightarrow> ProcessMap ?child it
                   | ScalarType \<Rightarrow> ProcessScalar ?child it"
      obtain c it' where inner: "?inner = Inr (c, it')"
        using r' it by (cases ?inner) (auto split: prod.splits)
      have le: "length it' \<le> length it"
        using inner "2.IH"(1) [OF it] "2.IH"(2) [OF it]
        by (cases "Type valueLine") (auto simp: ProcessScalar_def it)
      show "length ls' \<le> length (pLine # it)"
      proof (cases it')
        case Nil
        then show ?thesis using r' it inner by auto
      next
        case (Cons pNextLine it1)
        show ?thesis
        proof (cases "Offset pNextLine < Offset pLine")
          case True
          then show ?thesis using r' it inner Cons le by auto
        next
          case False
          then have cont: "\<not> Offset pLine < Offset pNextLine" "\<not> Type pNextLine \<noteq> Type pLine"
            and rec: "ProcessSequence (Node_put_child (fst (Node_PushBack node)) (snd (Node_PushBack node)) c) it' = Inr (n', ls')"
            using r' it inner Cons by (auto split: if_splits)
          have "length ls' \<le> length it'"
            using "2.IH"(3) [OF it inner refl Cons False cont] rec by blast
          then show ?thesis using le by simp
        qed
      qed
    qed
  next
    case (3 node)
    then show ?case by (simp add: ProcessMap.psimps)
  next
    case (4 node pLine it)
    show ?case
    proof (intro allI impI)
      fix n' ls'
      assume r: "ProcessMap node (pLine # it) = Inr (n', ls')"
      note r' = r [unfolded ProcessMap.psimps(2) [OF "4.hyps"]]
      obtain valueLine it0 where it: "it = valueLine # it0" using r' by (cases it) auto
      let ?child = "snd (Node_index_key node (Data pLine))"
      let ?inner = "case Type valueLine of
                     NoneType \<Rightarrow> Inr (?child, it)
                   | SequenceType \<Rightarrow> ProcessSequence ?child it
                   | MapType \<Rightarrow> ProcessMap ?child it
                   | ScalarType \<Rightarrow> ProcessScalar ?child it"
      obtain c it' where inner: "?inner = Inr (c, it')"
        using r' it by (cases ?inner) (auto split: prod.splits)
      have le: "length it' \<le> length it"
        using inner "4.IH"(1) [OF it] "4.IH"(2) [OF it]
        by (cases "Type valueLine") (auto simp: ProcessScalar_def it)
      show "length ls' \<le> length (pLine # it)"
      proof (cases it')
        case Nil
        then show ?thesis using r' it inner by auto
      next
        case (Cons pNextLine it1)
        show ?thesis
        proof (cases "Offset pNextLine < Offset pLine")
          case True
          then show ?thesis using r' it inner Cons le by auto
        next
          case False
          then have cont: "\<not> Offset pLine < Offset pNextLine" "\<not> Type pNextLine \<noteq> Type pLine"
            and rec: "ProcessMap (Node_put_child_key (fst (Node_index_key node (Data pLine))) (Data pLine) c) it' = Inr (n', ls')"
            using r' it inner Cons by (auto split: if_splits)
          have "length ls' \<le> length it'"
            using "4.IH"(3) [OF it inner refl Cons False cont] rec by blast
          then show ?thesis using le by simp
        qed
      qed
    qed
  qed
  show ?thesis
  proof (relation "measure (\<lambda>x. case x of Inl (node, lines) \<Rightarrow> length lines | Inr (node, lines) \<Rightarrow> length lines)", goal_cases)
    case 1
    then show ?case by simp
  next
    case (2 node pLine it x21 x22)
    then show ?case by simp
  next
    case (3 node pLine it x21 x22)
    then show ?case by simp
  next
    case (4 node pLine it x21 x22 b x y x21a x22a)
    have "length y \<le> length it"
      using 4 shorter(1) [of "Node_get_child (fst (Node_PushBack node)) (snd (Node_PushBack node))" it]
        shorter(2) [of "Node_get_child (fst (Node_PushBack node)) (snd (Node_PushBack node))" it]
      by (cases "Type x21") (auto simp: ProcessScalar_def)
    then show ?case by simp
  next
    case (5 node pLine it x21 x22)
    then show ?case by simp
  next
    case (6 node pLine it x21 x22)
    then show ?case by simp
  next
    case (7 node pLine it x21 x22 b x y x21a x22a)
    have "length y \<le> length it"
      using 7 shorter(1) [of "snd (Node_index_key node (Data pLine))" it]
        shorter(2) [of "snd (Node_index_key node (Data pLine))" it]
      by (cases "Type x21") (auto simp: ProcessScalar_def)
    then show ?case by simp
  qed
qed

declare ProcessSequence.simps [simp del] ProcessMap.simps [simp del]

text \<open>\<^verbatim>\<open>ProcessRoot\<close> starts with the kind of the first line and checks that no line is
  left.\<close>

definition ProcessRoot :: "Node \<Rightarrow> ReaderLine list \<Rightarrow> (failure \<times> Node) + Node" where
  "ProcessRoot root m_Lines =
     (case m_Lines of
        [] \<Rightarrow> Inr root
      | pLine # _ \<Rightarrow>
          (case (case Type pLine of
                   SequenceType \<Rightarrow> ProcessSequence root m_Lines
                 | MapType \<Rightarrow> ProcessMap root m_Lines
                 | ScalarType \<Rightarrow> ProcessScalar root m_Lines
                 | NoneType \<Rightarrow> Inr (root, m_Lines)) of
             Inl e \<Rightarrow> Inl e
           | Inr (root', it) \<Rightarrow>
               (if it \<noteq> [] then Inl (Throw (InternalException g_ErrorUnexpectedDocumentEnd), root')
                else Inr root')))"

subsection \<open>Parse\<close>

text \<open>
  The \<^verbatim>\<open>try\<close> block of \<^verbatim>\<open>ReaderImp::Parse\<close> clears the root and runs the three phases.
  It returns the root and \<^verbatim>\<open>m_Lines\<close>, or the failure with the root and \<^verbatim>\<open>m_Lines\<close> as
  they are when the exception is thrown: the lines read so far, and the tree built so
  far. A \<^verbatim>\<open>ReaderImp\<close> only lives inside \<^verbatim>\<open>Parse\<close>, so \<^verbatim>\<open>m_Lines\<close> is empty at the start.
\<close>

definition ReaderImp_try ::
  "Node \<Rightarrow> string \<Rightarrow> (failure \<times> Node \<times> ReaderLine list) + (Node \<times> ReaderLine list)" where
  "ReaderImp_try root stream =
     (case ReadLines stream of
        Inl (f, m_Lines) \<Rightarrow> Inl (f, NodeImp_Clear root, m_Lines)
      | Inr lines1 \<Rightarrow>
          (case PostProcessLines lines1 of
             Inl (f, m_Lines) \<Rightarrow> Inl (f, NodeImp_Clear root, m_Lines)
           | Inr lines2 \<Rightarrow>
               (case ProcessRoot (NodeImp_Clear root) lines2 of
                  Inl (f, root') \<Rightarrow> Inl (f, root', lines2)
                | Inr root' \<Rightarrow> Inr (root', lines2))))"

text \<open>
  The handler \<^verbatim>\<open>catch(Exception e)\<close> clears the lines and the root and throws again.
  The result of \<^verbatim>\<open>ReaderImp::Parse\<close> is how the call ends, with the root and \<^verbatim>\<open>m_Lines\<close>
  as it leaves them.
\<close>

definition ClearLines :: "ReaderLine list \<Rightarrow> ReaderLine list" where
  "ClearLines m_Lines = []"

datatype ParseResult =
    Returned Node "ReaderLine list"
  | Raised Exception Node "ReaderLine list"
  | Undefined

definition ReaderImp_catch :: "failure \<Rightarrow> Node \<Rightarrow> ReaderLine list \<Rightarrow> ParseResult" where
  "ReaderImp_catch f root m_Lines =
     (case f of
        Throw e \<Rightarrow> Raised e (NodeImp_Clear root) (ClearLines m_Lines)
      | UndefinedBehaviour \<Rightarrow> Undefined)"

definition ReaderImp_Parse :: "Node \<Rightarrow> string \<Rightarrow> ParseResult" where
  "ReaderImp_Parse root stream =
     (case ReaderImp_try root stream of
        Inl (f, root', m_Lines) \<Rightarrow> ReaderImp_catch f root' m_Lines
      | Inr (root', m_Lines) \<Rightarrow> Returned root' m_Lines)"

text \<open>\<^verbatim>\<open>Parse(Node & root, std::iostream & stream)\<close> and the overloads on a string or a
  buffer: the new root, or the exception.\<close>

definition Parse :: "Node \<Rightarrow> string \<Rightarrow> failure + Node" where
  "Parse root stream =
     (case ReaderImp_Parse root stream of
        Returned root' m_Lines \<Rightarrow> Inr root'
      | Raised e root' m_Lines \<Rightarrow> Inl (Throw e)
      | Undefined \<Rightarrow> Inl UndefinedBehaviour)"
section \<open>Notions used to state the properties\<close>

subsection \<open>Runs of sequence operations\<close>

text \<open>A finite mix of \<^verbatim>\<open>PushBack\<close> and \<^verbatim>\<open>Erase(index)\<close> calls on one node, in order.\<close>

datatype seq_op = OpPushBack | OpErase nat

fun apply_seq_op :: "Node \<Rightarrow> seq_op \<Rightarrow> Node" where
  "apply_seq_op n OpPushBack = fst (Node_PushBack n)"
| "apply_seq_op n (OpErase i) = Node_Erase n i"

fun run_seq_ops :: "Node \<Rightarrow> seq_op list \<Rightarrow> Node" where
  "run_seq_ops n [] = n"
| "run_seq_ops n (op # ops) = run_seq_ops (apply_seq_op n op) ops"

text \<open>Every \<^verbatim>\<open>Erase\<close> of the run names the last index of the sequence at that moment, or
  an index beyond it.\<close>

fun erases_at_end :: "Node \<Rightarrow> seq_op list \<Rightarrow> bool" where
  "erases_at_end n [] = True"
| "erases_at_end n (OpPushBack # ops) = erases_at_end (apply_seq_op n OpPushBack) ops"
| "erases_at_end n (OpErase i # ops) =
     (Node_Size n \<le> Suc i \<and> erases_at_end (apply_seq_op n (OpErase i)) ops)"

text \<open>A sequence node whose keys are \<open>0, 1, \<dots>, size - 1\<close>.\<close>

fun Node_dense :: "Node \<Rightarrow> bool" where
  "Node_dense (SequenceNode m) = (map fst m = [0..<length m])"
| "Node_dense n = False"

subsection \<open>Trees that CopyNode reproduces\<close>

text \<open>
  No sequence and no map of the tree is empty, the keys of every sequence are
  \<open>0, 1, \<dots>, size - 1\<close>, and the keys of every map ascend (as they do in a
  \<^verbatim>\<open>std::map\<close>).
\<close>

fun copyable :: "Node \<Rightarrow> bool" where
  "copyable NoneNode = True"
| "copyable (ScalarNode s) = True"
| "copyable (SequenceNode m) =
     (m \<noteq> [] \<and> map fst m = [0..<length m] \<and> list_all (\<lambda>e. copyable (snd e)) m)"
| "copyable (MapNode m) =
     (m \<noteq> [] \<and> sorted_wrt (<) (map fst m) \<and> list_all (\<lambda>e. copyable (snd e)) m)"

text \<open>A store in which every address holds an empty node.\<close>

definition empty_store :: "nat \<Rightarrow> Node" where
  "empty_store a = NoneNode"

subsection \<open>Reading lines\<close>

text \<open>The line that \<^verbatim>\<open>ReadLines\<close> works with after it has cut the comment off.\<close>

definition comment_removed :: "string \<Rightarrow> string" where
  "comment_removed raw =
     (case FindNotCited_pos raw CHR ''#'' of None \<Rightarrow> raw | Some commentPos \<Rightarrow> take commentPos raw)"

text \<open>A raw line that does not stop the reading: it is no end-of-document marker and has no
  invalid character.\<close>

definition passes :: "string \<Rightarrow> bool" where
  "passes raw =
     (comment_removed raw \<noteq> ''...''
      \<and> \<not> list_ex invalid_character
            (if length (comment_removed raw) \<noteq> 0 \<and> last (comment_removed raw) = creturn
             then butlast (comment_removed raw) else comment_removed raw))"

subsection \<open>Failures of the parser\<close>

text \<open>A failure that is no operation error: a parsing error, an internal error or
  undefined behaviour.\<close>

fun parse_failure :: "failure \<Rightarrow> bool" where
  "parse_failure (Throw (OperationException m)) = False"
| "parse_failure f = True"

subsection \<open>Single quotes\<close>

text \<open>The line with every single quote replaced by the character \<open>c\<close>.\<close>

definition single_quotes_replaced :: "char \<Rightarrow> string \<Rightarrow> string" where
  "single_quotes_replaced c input = map (\<lambda>x. if x = squote then c else x) input"

subsection \<open>Filling a map\<close>




section \<open>Properties of the node tree\<close>

subsection \<open>Facts about the ordered map\<close>

lemma size_t_succ_small: "k < 18446744073709551615 \<Longrightarrow> size_t_succ k = k + 1"
  by (simp add: size_t_succ_def)

lemma stdmap_find_None_iff: "stdmap_find k m = None \<longleftrightarrow> k \<notin> fst ` set m"
  by (induction m) (auto split: if_splits)

lemma stdmap_insert_above:
  "\<forall>k \<in> fst ` set m. k < x \<Longrightarrow> stdmap_insert x v m = m @ [(x, v)]"
  by (induction m) auto

lemma stdmap_find_above:
  "\<forall>k \<in> fst ` set m. k < (x::'k::linorder) \<Longrightarrow> stdmap_find x (m @ [(x, v)]) = Some v"
  by (induction m) auto

lemma stdmap_assign_above:
  "\<forall>k \<in> fst ` set m. k < x \<Longrightarrow> stdmap_assign x c (m @ [(x, v)]) = m @ [(x, c)]"
  by (induction m) auto

lemma stdmap_erase_last:
  "distinct (map fst m) \<Longrightarrow> m \<noteq> [] \<Longrightarrow> stdmap_erase (fst (last m)) m = butlast m"
  by (induction m) (auto simp: image_iff)

lemma stdmap_assign_keys: "fst ` set (stdmap_assign k v m) = insert k (fst ` set m)"
  by (induction m) force+

lemma stdmap_assign_mem: "(k, v) \<in> set (stdmap_assign k v m)"
  by (induction m) auto

lemma stdmap_assign_sorted:
  "sorted_wrt (<) (map fst m) \<Longrightarrow> sorted_wrt (<) (map fst (stdmap_assign k v m))"
proof (induction m)
  case Nil
  then show ?case by simp
next
  case (Cons e m)
  obtain k' v' where e: "e = (k', v')" by (cases e)
  have "\<forall>x \<in> fst ` set (stdmap_assign k v m). k' < x" if "k' < k"
    using Cons.prems that by (auto simp: stdmap_assign_keys e)
  then show ?case using Cons by (auto simp: e)
qed

lemma stdmap_next_succ:
  "sorted_wrt (<) (map fst m) \<Longrightarrow> (Suc k, n) \<in> set m \<Longrightarrow> stdmap_next k m = Some (Suc k, n)"
proof (induction m)
  case Nil
  then show ?case by simp
next
  case (Cons e m)
  obtain k' v' where e: "e = (k', v')" by (cases e)
  show ?case
  proof (cases "k < k'")
    case True
    have "k' \<le> Suc k" using Cons.prems by (auto simp: e)
    then have k': "k' = Suc k" using True by simp
    have "v' = n" using Cons.prems by (auto simp: e k')
    then show ?thesis using True by (simp add: e k')
  next
    case False
    then have "(Suc k, n) \<in> set m" using Cons.prems by (auto simp: e)
    then show ?thesis using Cons False by (simp add: e)
  qed
qed

subsection \<open>Dense sequences\<close>

lemma PushBack_dense:
  assumes "map fst m = [0..<length m]"
  shows "SequenceImp_PushBack m = (m @ [(length m, NoneNode)], length m)"
proof (cases "m = []")
  case True
  then show ?thesis by (simp add: SequenceImp_PushBack_def)
next
  case False
  have keys: "fst ` set m = {0..<length m}"
    using assms by (metis list.set_map set_upt)
  have "fst (last m) = last (map fst m)" using False by (simp add: last_map)
  also have "\<dots> = length m - 1" using False assms by (simp add: last_upt)
  finally have l: "fst (last m) + 1 = length m" using False by (cases m) auto
  have "stdmap_insert (length m) NoneNode m = m @ [(length m, NoneNode)]"
    by (rule stdmap_insert_above) (simp add: keys)
  then show ?thesis using False l by (simp add: SequenceImp_PushBack_def Let_def)
qed

lemma Node_dense_PushBack: "Node_dense n \<Longrightarrow> Node_dense (fst (Node_PushBack n))"
  by (cases n) (simp_all add: Node_PushBack_def PushBack_dense)

lemma dense_Erase:
  assumes "map fst m = [0..<length m]" and "length m \<le> Suc i"
  shows "map fst (SequenceImp_Erase m i) = [0..<length (SequenceImp_Erase m i)]"
proof (cases "i < length m")
  case False
  then have "i \<notin> fst ` set m" using assms(1) by (metis atLeastLessThan_iff list.set_map set_upt)
  then have "stdmap_find i m = None" by (simp add: stdmap_find_None_iff)
  then show ?thesis using assms(1) by (simp add: SequenceImp_Erase_def)
next
  case True
  then have i: "Suc i = length m" and ne: "m \<noteq> []" using assms(2) by auto
  have "fst (last m) = last (map fst m)" using ne by (simp add: last_map)
  also have "\<dots> = i" using ne assms(1) i by (simp add: last_upt)
  finally have l: "fst (last m) = i" .
  have d: "distinct (map fst m)" using assms(1) by simp
  have e: "stdmap_erase i m = butlast m" using stdmap_erase_last [OF d ne] l by simp
  have "map fst (butlast m) = [0..<length (butlast m)]"
    using assms(1) ne by (simp add: map_butlast butlast_conv_take take_map [symmetric] del: upt_Suc)
  then show ?thesis using e assms(1) by (simp add: SequenceImp_Erase_def split: option.splits)
qed

lemma Node_dense_Erase: "Node_dense n \<Longrightarrow> Node_Size n \<le> Suc i \<Longrightarrow> Node_dense (Node_Erase n i)"
  by (cases n) (simp_all add: dense_Erase)

lemma Node_dense_run: "Node_dense n \<Longrightarrow> erases_at_end n ops \<Longrightarrow> Node_dense (run_seq_ops n ops)"
proof (induction ops arbitrary: n)
  case Nil
  then show ?case by simp
next
  case (Cons op ops)
  then show ?case by (cases op) (simp_all add: Node_dense_PushBack Node_dense_Erase)
qed

lemma Node_dense_index:
  assumes "Node_dense n" and "i < Node_Size n"
  shows "Node_index (n, g) i = ((n, g), ChildAt i)"
proof -
  obtain m where n: "n = SequenceNode m" and m: "map fst m = [0..<length m]"
    using assms(1) by (cases n) auto
  have "i \<in> fst ` set m" using assms(2) n m by (metis Node_Size.simps(2) atLeastLessThan_iff le0 list.set_map set_upt)
  then obtain c where "stdmap_find i m = Some c" using stdmap_find_None_iff [of i m] by auto
  then show ?thesis using n by (simp add: Node_index_def SequenceImp_GetNode_def)
qed

subsection \<open>C3: sequence density\<close>

text \<open>
  C3, as stated, fails. After two \<^verbatim>\<open>PushBack\<close> calls and \<^verbatim>\<open>Erase(0)\<close> the sequence has
  size 1 and its only key is 1: \<^verbatim>\<open>operator[](0)\<close> returns the global none node although
  \<open>0 < size\<close>.
\<close>

theorem erase_at_front_leaves_gap:
  "Node_Size (Node_Erase (fst (Node_PushBack (fst (Node_PushBack (SequenceNode []))))) 0) = 1
   \<and> snd (Node_index
           (Node_Erase (fst (Node_PushBack (fst (Node_PushBack (SequenceNode []))))) 0, NoneNode)
           0) = GlobalNoneNode"
  by (simp add: Node_PushBack_def SequenceImp_PushBack_def SequenceImp_Erase_def Node_index_def
      SequenceImp_GetNode_def NodeImp_Clear_def)

text \<open>
  C3, amended: for every sequence node \<open>S\<close> with keys \<open>0, \<dots>, size - 1\<close>, after any finite
  mix of push-back and erase-at operations in which each erase-at names the last index of
  the sequence at that moment or an index beyond it, child-at(i) returns a present child
  (not the global none node) for every \<open>i\<close> in \<open>[0, size(S))\<close>, and leaves the node
  as it is. (\<^verbatim>\<open>Erase\<close> removes one entry and renumbers nothing.)
\<close>

theorem sequence_dense_after_push_back_and_trailing_erase:
  assumes "Node_dense S" and "erases_at_end S ops" and "i < Node_Size (run_seq_ops S ops)"
  shows "Node_index (run_seq_ops S ops, g) i = ((run_seq_ops S ops, g), ChildAt i)"
  using Node_dense_index [OF Node_dense_run [OF assms(1,2)] assms(3)] .

theorem sequence_dense_after_push_back_and_trailing_erase_witness:
  "Node_dense (SequenceNode [])
   \<and> erases_at_end (SequenceNode []) [OpPushBack, OpPushBack, OpErase 1, OpErase 5, OpPushBack]
   \<and> 1 < Node_Size (run_seq_ops (SequenceNode []) [OpPushBack, OpPushBack, OpErase 1, OpErase 5, OpPushBack])
   \<and> Node_index
        (run_seq_ops (SequenceNode []) [OpPushBack, OpPushBack, OpErase 1, OpErase 5, OpPushBack], NoneNode) 1
       = ((SequenceNode [(0, NoneNode), (1, NoneNode)], NoneNode), ChildAt 1)"
proof -
  have r: "run_seq_ops (SequenceNode []) [OpPushBack, OpPushBack, OpErase 1, OpErase 5, OpPushBack]
             = SequenceNode [(0, NoneNode), (1, NoneNode)]"
    by (simp add: Node_PushBack_def SequenceImp_PushBack_def SequenceImp_Erase_def)
  have d: "Node_dense (SequenceNode [])" by simp
  have e: "erases_at_end (SequenceNode []) [OpPushBack, OpPushBack, OpErase 1, OpErase 5, OpPushBack]"
    by (simp add: Node_PushBack_def SequenceImp_PushBack_def SequenceImp_Erase_def)
  have s: "1 < Node_Size (run_seq_ops (SequenceNode []) [OpPushBack, OpPushBack, OpErase 1, OpErase 5, OpPushBack])"
    unfolding r by simp
  show ?thesis
    using sequence_dense_after_push_back_and_trailing_erase [OF d e s, of NoneNode] d e s
    unfolding r by simp
qed

subsection \<open>C4: PushFront\<close>

lemma PushFront_loop_runs_on:
  "sorted_wrt (<) (map fst m) \<Longrightarrow> k + fuel < 2 ^ 64 \<Longrightarrow> PushFront_loop fuel m (Some (k, n)) = None"
proof (induction fuel arbitrary: m k)
  case 0
  then show ?case by simp
next
  case (Suc fuel)
  have k: "size_t_succ k = Suc k" using Suc.prems(2) by (simp add: size_t_succ_small)
  let ?m' = "stdmap_assign (Suc k) n m"
  have s: "sorted_wrt (<) (map fst ?m')" using Suc.prems(1) by (rule stdmap_assign_sorted)
  have nx: "stdmap_next k ?m' = Some (Suc k, n)"
    by (rule stdmap_next_succ [OF s stdmap_assign_mem])
  have "PushFront_loop fuel ?m' (Some (Suc k, n)) = None"
    using Suc.IH [OF s] Suc.prems(2) by simp
  then show ?case by (simp add: k nx)
qed

text \<open>\<^verbatim>\<open>PushFront\<close> on an empty sequence and \<^verbatim>\<open>PushBack\<close> on a dense one do what C4
  says.\<close>

lemma PushFront_empty:
  "Node_PushFront fuel (SequenceNode []) = Some (SequenceNode [(0, NoneNode)], ChildAt 0)"
  by (simp add: Node_PushFront_def SequenceImp_PushFront_def stdmap_begin_def)

lemma PushBack_at_size:
  "Node_dense n \<Longrightarrow> Node_PushBack n = (n', i) \<Longrightarrow>
   i = Node_Size n \<and> Node_Size n' = Suc (Node_Size n) \<and> Node_get_child n' i = NoneNode"
proof (cases n)
  case (SequenceNode m)
  assume d: "Node_dense n" and p: "Node_PushBack n = (n', i)"
  have m: "map fst m = [0..<length m]" using d SequenceNode by simp
  have above: "\<forall>k \<in> fst ` set m. k < length m"
    using m by (metis atLeastLessThan_iff list.set_map set_upt)
  show ?thesis
    using p SequenceNode by (auto simp: Node_PushBack_def PushBack_dense [OF m] stdmap_find_above [OF above])
qed simp_all

text \<open>
  C4 holds for \<^verbatim>\<open>PushBack\<close> on a dense sequence and for \<^verbatim>\<open>PushFront\<close> on an empty one,
  and fails for \<^verbatim>\<open>PushFront\<close> on every sequence that has a child. There the loop writes
  key \<open>k + 1\<close> while it stands on key \<open>k\<close> and steps onto the entry it has just written:
  starting on the first key \<open>k\<^sub>0\<close> it is still running after any number of steps below
  \<open>2 ^ 64 - k\<^sub>0\<close>, and each step adds an entry to the map. The call returns no node.
\<close>

theorem PushFront_on_nonempty_sequence_does_not_return:
  "sorted_wrt (<) (map fst m) \<Longrightarrow> m \<noteq> [] \<Longrightarrow> fst (hd m) + fuel < 2 ^ 64 \<Longrightarrow>
   Node_PushFront fuel (SequenceNode m) = None"
  using PushFront_loop_runs_on [of m "fst (hd m)" fuel "snd (hd m)"]
  by (cases m) (auto simp: Node_PushFront_def SequenceImp_PushFront_def stdmap_begin_def)

theorem PushFront_on_nonempty_sequence_does_not_return_witness:
  "sorted_wrt (<) (map fst [(0::nat, ScalarNode ''a'')]) \<and> [(0::nat, ScalarNode ''a'')] \<noteq> []
   \<and> fst (hd [(0::nat, ScalarNode ''a'')]) + 1000000 < (2::nat) ^ 64
   \<and> Node_PushFront 1000000 (SequenceNode [(0, ScalarNode ''a'')]) = None"
  using PushFront_on_nonempty_sequence_does_not_return [of "[(0, ScalarNode ''a'')]" 1000000]
  by simp

subsection \<open>C5: totality of the node operations\<close>

text \<open>The two operations C5 names behave as it says.\<close>

lemma child_at_out_of_bounds:
  assumes "Node_index (n, g) index = (st, r)" and "SequenceImp_GetNode (case NodeImp_InitSequence n of SequenceNode m \<Rightarrow> m | _ \<Rightarrow> []) index = None"
  shows "r = GlobalNoneNode \<and> Node_Type (deref st r) = NoneType"
  using assms
  by (cases n) (auto simp: Node_index_def deref_def NodeImp_Clear_def split: option.splits)

lemma erase_on_wrong_kind:
  "Node_Type n \<noteq> SequenceType \<Longrightarrow> Node_Erase n index = n"
  "Node_Type n \<noteq> MapType \<Longrightarrow> Node_Erase_key n key = n"
  by (cases n; simp)+

lemma Insert_loop_returns:
  assumes "Insert_loop m it index = Some r"
  shows "it = None \<or> fst (the it) = index"
proof (rule Insert_loop.raw_induct [rotated 1, where P = "\<lambda>m it index r. it = None \<or> fst (the it) = index", OF assms])
  fix f m it index r
  assume IH: "\<And>m it index r. f m it index = Some r \<Longrightarrow> it = None \<or> fst (the it) = index"
    and step: "(case it of None \<Rightarrow> Some m
      | Some e \<Rightarrow>
          if fst e = index
          then Some (stdmap_assign (size_t_succ (fst e)) (snd e) m)
          else f (stdmap_assign (size_t_succ (fst e)) (snd e) m) it index) = Some r"
  show "it = None \<or> fst (the it) = index"
  proof (cases it)
    case None
    then show ?thesis by simp
  next
    case (Some e)
    show ?thesis
    proof (cases "fst e = index")
      case True
      then show ?thesis using Some by simp
    next
      case False
      then have "f (stdmap_assign (size_t_succ (fst e)) (snd e) m) it index = Some r"
        using step Some by simp
      then show ?thesis by (rule IH)
    qed
  qed
qed

lemma Insert_loop_stuck: "fst e \<noteq> index \<Longrightarrow> Insert_loop m (Some e) index = None"
  using Insert_loop_returns [of m "Some e" index] by (cases "Insert_loop m (Some e) index") auto

text \<open>
  C5 fails for \<^verbatim>\<open>Insert\<close>: on a sequence with a child, an index below the size that is
  not the first key makes the loop of \<^verbatim>\<open>SequenceImp::Insert\<close> run for ever, since the loop
  leaves only when the key under the iterator is the index and never moves the iterator.
  The operation is not total.
\<close>

theorem Insert_inside_sequence_does_not_return:
  "m \<noteq> [] \<Longrightarrow> index < length m \<Longrightarrow> fst (hd m) \<noteq> index \<Longrightarrow>
   Node_Insert (SequenceNode m) index = None"
  using Insert_loop_stuck [of "hd m" index m]
  by (cases m) (auto simp: Node_Insert_def SequenceImp_Insert_def stdmap_begin_def split: option.splits)

theorem Insert_inside_sequence_does_not_return_witness:
  "[(0::nat, ScalarNode ''a''), (1, ScalarNode ''b'')] \<noteq> []
   \<and> 1 < length [(0::nat, ScalarNode ''a''), (1, ScalarNode ''b'')]
   \<and> fst (hd [(0::nat, ScalarNode ''a''), (1, ScalarNode ''b'')]) \<noteq> 1
   \<and> Node_Insert (SequenceNode [(0, ScalarNode ''a''), (1, ScalarNode ''b'')]) 1 = None"
  using Insert_inside_sequence_does_not_return [of "[(0, ScalarNode ''a''), (1, ScalarNode ''b'')]" 1]
  by simp

subsection \<open>C10: deep-copy assignment\<close>

lemma CopyNode_sequence_dense:
  assumes "\<forall>e \<in> set m. CopyNode (snd e) NoneNode = snd e"
    and "map fst pre = [0..<length pre]"
    and "map fst m = [length pre..<length pre + length m]"
  shows "CopyNode_sequence m (SequenceNode pre) = SequenceNode (pre @ m)"
  using assms
proof (induction m arbitrary: pre)
  case Nil
  then show ?case by simp
next
  case (Cons e m)
  obtain i c where e: "e = (i, c)" by (cases e)
  have i: "i = length pre" and m: "map fst m = [Suc (length pre)..<Suc (length pre) + length m]"
    using Cons.prems(3) [symmetric] by (auto simp add: e upt_eq_Cons_conv simp del: upt_Suc)
  have above: "\<forall>k \<in> fst ` set pre. k < length pre"
    using Cons.prems(2) by (metis atLeastLessThan_iff list.set_map set_upt)
  have pb: "Node_PushBack (SequenceNode pre) = (SequenceNode (pre @ [(length pre, NoneNode)]), length pre)"
    by (simp add: Node_PushBack_def PushBack_dense [OF Cons.prems(2)])
  have c: "CopyNode c NoneNode = c" using Cons.prems(1) by (simp add: e)
  have step: "CopyNode_sequence (e # m) (SequenceNode pre) = CopyNode_sequence m (SequenceNode (pre @ [e]))"
    by (simp add: pb e i c stdmap_find_above [OF above] stdmap_assign_above [OF above])
  have "CopyNode_sequence m (SequenceNode (pre @ [e])) = SequenceNode ((pre @ [e]) @ m)"
  proof (rule Cons.IH)
    show "\<forall>e\<in>set m. CopyNode (snd e) NoneNode = snd e" using Cons.prems(1) by simp
    show "map fst (pre @ [e]) = [0..<length (pre @ [e])]" using Cons.prems(2) by (simp add: e i)
    show "map fst m = [length (pre @ [e])..<length (pre @ [e]) + length m]"
      using m by simp
  qed
  then show ?case using step by simp
qed

lemma CopyNode_map_sorted:
  assumes "\<forall>e \<in> set m. CopyNode (snd e) NoneNode = snd e"
    and "sorted_wrt (<) (map fst (pre @ m))"
  shows "CopyNode_map m (MapNode pre) = MapNode (pre @ m)"
  using assms
proof (induction m arbitrary: pre)
  case Nil
  then show ?case by simp
next
  case (Cons e m)
  obtain k c where e: "e = (k, c)" by (cases e)
  have above: "\<forall>k' \<in> fst ` set pre. k' < k"
    using Cons.prems(2) by (auto simp: e sorted_wrt_append)
  then have "k \<notin> fst ` set pre" by auto
  then have nf: "stdmap_find k pre = None" by (simp add: stdmap_find_None_iff)
  have ik: "Node_index_key (MapNode pre) k = (MapNode (pre @ [(k, NoneNode)]), NoneNode)"
    by (simp add: Node_index_key_def MapImp_GetNode_def nf stdmap_insert_above [OF above])
  have c: "CopyNode c NoneNode = c" using Cons.prems(1) by (simp add: e)
  have step: "CopyNode_map (e # m) (MapNode pre) = CopyNode_map m (MapNode (pre @ [e]))"
    by (simp add: ik e c stdmap_assign_above [OF above])
  have "CopyNode_map m (MapNode (pre @ [e])) = MapNode ((pre @ [e]) @ m)"
  proof (rule Cons.IH)
    show "\<forall>e\<in>set m. CopyNode (snd e) NoneNode = snd e" using Cons.prems(1) by simp
    show "sorted_wrt (<) (map fst ((pre @ [e]) @ m))" using Cons.prems(2) by simp
  qed
  then show ?case using step by simp
qed

lemma CopyNode_sequence_None:
  assumes "\<forall>e \<in> set m. CopyNode (snd e) NoneNode = snd e"
    and "map fst m = [0..<length m]" and "m \<noteq> []"
  shows "CopyNode_sequence m NoneNode = SequenceNode m"
proof -
  obtain e m' where m: "m = e # m'" using assms(3) by (cases m) auto
  obtain i c where e: "e = (i, c)" by (cases e)
  have i: "i = 0" and m': "map fst m' = [Suc 0..<Suc (length m')]"
    using assms(2) [symmetric] by (auto simp add: m e upt_eq_Cons_conv simp del: upt_Suc)
  have c: "CopyNode c NoneNode = c" using assms(1) by (simp add: m e)
  have step: "CopyNode_sequence m NoneNode = CopyNode_sequence m' (SequenceNode [e])"
    by (simp add: m e i c Node_PushBack_def SequenceImp_PushBack_def)
  have "CopyNode_sequence m' (SequenceNode [e]) = SequenceNode ([e] @ m')"
  proof (rule CopyNode_sequence_dense)
    show "\<forall>e\<in>set m'. CopyNode (snd e) NoneNode = snd e" using assms(1) by (simp add: m)
    show "map fst [e] = [0..<length [e]]" by (simp add: e i)
    show "map fst m' = [length [e]..<length [e] + length m']"
      using m' by simp
  qed
  then show ?thesis using step by (simp add: m)
qed

lemma CopyNode_map_None:
  assumes "\<forall>e \<in> set m. CopyNode (snd e) NoneNode = snd e"
    and "sorted_wrt (<) (map fst m)" and "m \<noteq> []"
  shows "CopyNode_map m NoneNode = MapNode m"
proof -
  obtain e m' where m: "m = e # m'" using assms(3) by (cases m) auto
  obtain k c where e: "e = (k, c)" by (cases e)
  have c: "CopyNode c NoneNode = c" using assms(1) by (simp add: m e)
  have step: "CopyNode_map m NoneNode = CopyNode_map m' (MapNode [e])"
    by (simp add: m e c Node_index_key_def MapImp_GetNode_def)
  have "CopyNode_map m' (MapNode [e]) = MapNode ([e] @ m')"
  proof (rule CopyNode_map_sorted)
    show "\<forall>e\<in>set m'. CopyNode (snd e) NoneNode = snd e" using assms(1) by (simp add: m)
    show "sorted_wrt (<) (map fst ([e] @ m'))" using assms(2) by (simp add: m)
  qed
  then show ?thesis using step by (simp add: m)
qed

lemma CopyNode_copyable: "copyable n \<Longrightarrow> CopyNode n NoneNode = n"
proof (induction n)
  case NoneNode
  then show ?case by simp
next
  case (SequenceNode m)
  have "\<forall>e \<in> set m. CopyNode (snd e) NoneNode = snd e"
  proof
    fix e assume e: "e \<in> set m"
    then have "copyable (snd e)" using SequenceNode.prems by (simp add: list_all_iff)
    moreover have "snd e \<in> Basic_BNFs.snds e" by (cases e) simp
    ultimately show "CopyNode (snd e) NoneNode = snd e" using SequenceNode.IH e by blast
  qed
  then show ?case using SequenceNode.prems by (simp add: CopyNode_sequence_None)
next
  case (MapNode m)
  have "\<forall>e \<in> set m. CopyNode (snd e) NoneNode = snd e"
  proof
    fix e assume e: "e \<in> set m"
    then have "copyable (snd e)" using MapNode.prems by (simp add: list_all_iff)
    moreover have "snd e \<in> Basic_BNFs.snds e" by (cases e) simp
    ultimately show "CopyNode (snd e) NoneNode = snd e" using MapNode.IH e by blast
  qed
  then show ?case using MapNode.prems by (simp add: CopyNode_map_None)
next
  case (ScalarNode s)
  then show ?case by (simp add: Node_assign_string_def)
qed

text \<open>
  C10, as stated, fails in its second half: assigning an empty sequence to another node
  leaves that node of kind \<^verbatim>\<open>None\<close>, since \<^verbatim>\<open>CopyNode\<close> only turns the target into a
  sequence when it pushes a child. The kinds of target and source differ.
\<close>

theorem assign_empty_sequence_gives_None:
  "Node_Type (Node_assign (empty_store(1 := SequenceNode [])) 0 1 0) = NoneType
   \<and> Node_Type (Node_assign (empty_store(1 := SequenceNode [])) 0 1 1) = SequenceType"
  by (simp add: Node_assign_def NodeImp_Clear_def empty_store_def)

text \<open>
  C10, amended: deep-copy assignment of a node to itself leaves the node in the None state,
  whatever it held; for two distinct root nodes, when the source tree has no empty sequence
  and no empty map and its sequences are indexed \<open>0, \<dots>, size - 1\<close>, the assignment makes
  the target equal to the source and leaves the source as it was.
\<close>

theorem assign_node_self_and_distinct:
  "Node_assign store a a a = NoneNode \<and>
   (a \<noteq> b \<longrightarrow> copyable (store b) \<longrightarrow>
      Node_assign store a b a = store b \<and> Node_assign store a b b = store b)"
  by (simp add: Node_assign_def NodeImp_Clear_def CopyNode_copyable)

theorem assign_node_self_and_distinct_witness:
  "Node_assign (empty_store(0 := ScalarNode ''x'')) 0 0 0 = NoneNode
   \<and> (0::nat) \<noteq> 1
   \<and> copyable (MapNode [(''k'', SequenceNode [(0, ScalarNode ''v''), (1, NoneNode)])])
   \<and> Node_assign (empty_store(0 := ScalarNode ''x'',
          1 := MapNode [(''k'', SequenceNode [(0, ScalarNode ''v''), (1, NoneNode)])])) 0 1 0
       = MapNode [(''k'', SequenceNode [(0, ScalarNode ''v''), (1, NoneNode)])]"
  using assign_node_self_and_distinct [of "empty_store(0 := ScalarNode ''x'')" 0 0]
    assign_node_self_and_distinct [of "empty_store(0 := ScalarNode ''x'',
          1 := MapNode [(''k'', SequenceNode [(0, ScalarNode ''v''), (1, NoneNode)])])" 0 1]
  by simp

section \<open>Properties of the scanners\<close>

subsection \<open>Facts about the searches\<close>

lemma find_if_Some: "find_if P xs = Some i \<Longrightarrow> i < length xs \<and> P (xs ! i) \<and> (\<forall>j < i. \<not> P (xs ! j))"
proof (induction xs arbitrary: i)
  case Nil
  then show ?case by simp
next
  case (Cons x xs)
  show ?case
  proof (cases "P x")
    case True
    then show ?thesis using Cons.prems by simp
  next
    case False
    then obtain i' where i': "find_if P xs = Some i'" and i: "i = Suc i'"
      using Cons.prems by auto
    from Cons.IH [OF i'] show ?thesis using False i by (auto simp: less_Suc_eq_0_disj)
  qed
qed

lemma find_if_None: "find_if P xs = None \<longleftrightarrow> (\<forall>x \<in> set xs. \<not> P x)"
  by (induction xs) auto

lemma find_first_of_Some:
  assumes "find_first_of input tokens pos = Some q"
  shows "pos \<le> q \<and> q < length input \<and> input ! q \<in> set tokens
         \<and> (\<forall>j. pos \<le> j \<and> j < q \<longrightarrow> input ! j \<notin> set tokens)"
proof -
  obtain i where i: "find_if (\<lambda>c. c \<in> set tokens) (drop pos input) = Some i" and q: "q = pos + i"
    using assms by (auto simp: find_first_of_def)
  from find_if_Some [OF i] have a: "i < length input - pos" "drop pos input ! i \<in> set tokens"
    "\<forall>j<i. drop pos input ! j \<notin> set tokens" by auto
  have "\<forall>j. pos \<le> j \<and> j < q \<longrightarrow> input ! j \<notin> set tokens"
  proof (intro allI impI)
    fix j assume j: "pos \<le> j \<and> j < q"
    then have "j - pos < i" using q by auto
    then have "drop pos input ! (j - pos) \<notin> set tokens" using a(3) by blast
    then show "input ! j \<notin> set tokens" using j a(1) q by simp
  qed
  then show ?thesis using a q by (simp add: add.commute)
qed

lemma find_first_of_None:
  "find_first_of input tokens pos = None \<longleftrightarrow> (\<forall>c \<in> set (drop pos input). c \<notin> set tokens)"
  by (simp add: find_first_of_def find_if_None)

subsection \<open>C9: LineFolding\<close>

lemma LineFolding_loop_extends:
  "\<exists>ys. LineFolding_loop input maxLength currentPos lastPos spacePos folded = folded @ ys"
proof (induction input maxLength currentPos lastPos spacePos folded rule: LineFolding_loop.induct)
  case (1 input maxLength currentPos lastPos spacePos folded)
  show ?case
  proof (cases "currentPos < length input")
    case False
    then show ?thesis by (simp add: LineFolding_loop.simps)
  next
    case True
    let ?cp = "lastPos + maxLength"
    let ?sp = "if ?cp < length input then find_first_of input '' '' ?cp else spacePos"
    show ?thesis
    proof (cases ?sp)
      case None
      then show ?thesis using True by (subst LineFolding_loop.simps) (simp add: Let_def)
    next
      case (Some sp)
      show ?thesis
      proof (cases "?cp \<ge> length input")
        case True
        then show ?thesis using \<open>currentPos < length input\<close> Some
          by (subst LineFolding_loop.simps) (simp add: Let_def)
      next
        case False
        obtain ys where "LineFolding_loop input maxLength ?cp (sp + 1) ?sp
               (folded @ [substr input lastPos (sp - lastPos)]) = (folded @ [substr input lastPos (sp - lastPos)]) @ ys"
          using "1.IH" [OF True refl refl Some False] by blast
        then show ?thesis using True Some False
          by (subst LineFolding_loop.simps) (simp add: Let_def)
      qed
    qed
  qed
qed

text \<open>
  C9, as stated, fails for the empty input: \<^verbatim>\<open>LineFolding\<close> returns at once when
  \<^verbatim>\<open>input.size() == 0\<close>, with no piece.
\<close>

theorem LineFolding_empty_input_gives_no_piece: "length (LineFolding [] 1) = 0"
  by (simp add: LineFolding_def)

text \<open>
  C9, amended: for the empty input the line-folding rule produces no piece; for every
  non-empty input string and every max-length \<open>L\<close> (positive or not) it produces a list
  with at least one piece, and it produces two or more pieces only if the input has a space
  at a position at or after \<open>L\<close>.
\<close>

theorem LineFolding_pieces:
  "LineFolding [] maxLength = []
   \<and> (input \<noteq> [] \<longrightarrow>
       length (LineFolding input maxLength) \<ge> 1
       \<and> (length (LineFolding input maxLength) \<ge> 2 \<longrightarrow>
            (\<exists>i. maxLength \<le> i \<and> i < length input \<and> input ! i = CHR '' '')))"
proof (intro conjI impI)
  show "LineFolding [] maxLength = []" by (simp add: LineFolding_def)
next
  assume ne: "input \<noteq> []"
  show "length (LineFolding input maxLength) \<ge> 1"
  proof (cases "maxLength < length input \<and> find_first_of input '' '' maxLength \<noteq> None")
    case False
    then have "LineFolding input maxLength = [input]"
      using ne by (auto simp: LineFolding_def LineFolding_loop.simps [of input maxLength 0] substr_from_def Let_def)
    then show ?thesis by simp
  next
    case True
    then obtain sp where sp: "find_first_of input '' '' maxLength = Some sp" by auto
    obtain ys where "LineFolding_loop input maxLength maxLength (sp + 1) (Some sp) [substr input 0 (sp - 0)]
        = [substr input 0 (sp - 0)] @ ys"
      using LineFolding_loop_extends [of input maxLength maxLength "sp + 1" "Some sp" "[substr input 0 (sp - 0)]"] by blast
    then show ?thesis using ne True sp
      by (simp add: LineFolding_def LineFolding_loop.simps [of input maxLength 0] Let_def)
  qed
next
  assume ne: "input \<noteq> []" and two: "length (LineFolding input maxLength) \<ge> 2"
  show "\<exists>i. maxLength \<le> i \<and> i < length input \<and> input ! i = CHR '' ''"
  proof (cases "maxLength < length input \<and> find_first_of input '' '' maxLength \<noteq> None")
    case False
    then have "LineFolding input maxLength = [input]"
      using ne by (auto simp: LineFolding_def LineFolding_loop.simps [of input maxLength 0] substr_from_def Let_def)
    then show ?thesis using two by simp
  next
    case True
    then obtain sp where sp: "find_first_of input '' '' maxLength = Some sp" by auto
    from find_first_of_Some [OF sp] show ?thesis by auto
  qed
qed

theorem LineFolding_pieces_witness:
  "''aaa bbb ccc ddd'' \<noteq> []
   \<and> LineFolding ''aaa bbb ccc ddd'' 5 = [''aaa bbb'', ''ccc ddd'']
   \<and> (\<exists>i. 5 \<le> i \<and> i < length ''aaa bbb ccc ddd'' \<and> ''aaa bbb ccc ddd'' ! i = CHR '' '')"
proof -
  have e: "LineFolding ''aaa bbb ccc ddd'' 5 = [''aaa bbb'', ''ccc ddd'']"
    by code_simp
  show ?thesis
    using LineFolding_pieces [of 5 "''aaa bbb ccc ddd''"] by (simp add: e)
qed

subsection \<open>C7: single quotes\<close>

lemma FindQuote_loop_no_dquote:
  "dquote \<notin> set input \<Longrightarrow> FindQuote_loop input qPos foundStart start = (False, start, None)"
proof (induction input qPos foundStart start rule: FindQuote_loop.induct)
  case (1 input qPos foundStart start)
  show ?case
  proof (cases "find_first_of input [dquote, squote] qPos")
    case None
    then show ?thesis by (subst FindQuote_loop.simps) simp
  next
    case (Some q)
    have q: "q < length input" using find_first_of_Some [OF Some] by simp
    then have nd: "input ! q \<noteq> dquote" using "1.prems" by (metis nth_mem)
    show ?thesis
    proof (cases "q + 1 = length input")
      case True
      then show ?thesis using Some nd by (subst FindQuote_loop.simps) simp
    next
      case False
      have "FindQuote_loop input (q + 1) foundStart start = (False, start, None)"
        using "1.IH"(2) [OF Some _ False] nd "1.prems" by simp
      then show ?thesis using Some nd False by (subst FindQuote_loop.simps) simp
    qed
  qed
qed

lemma find_first_of_NoneI:
  assumes "\<forall>j. pos \<le> j \<and> j < length input \<longrightarrow> input ! j \<notin> set tokens"
  shows "find_first_of input tokens pos = None"
proof -
  have "c \<notin> set tokens" if c: "c \<in> set (drop pos input)" for c
  proof -
    obtain i where i: "i < length input - pos" "c = input ! (pos + i)"
      using c by (auto simp: in_set_conv_nth)
    have "pos \<le> pos + i \<and> pos + i < length input" using i(1) by simp
    then show ?thesis using assms i(2) by blast
  qed
  then show ?thesis unfolding find_first_of_None by blast
qed

lemma find_first_of_NoneD:
  assumes "find_first_of input tokens pos = None" "pos \<le> j" "j < length input"
  shows "input ! j \<notin> set tokens"
proof -
  have "drop pos input ! (j - pos) \<in> set (drop pos input)"
    using assms(2,3) by (intro nth_mem) simp
  then have "input ! j \<in> set (drop pos input)" using assms(2,3) by simp
  then show ?thesis using assms(1) unfolding find_first_of_None by blast
qed

lemma find_first_of_skip:
  assumes "pos \<le> q" "q \<le> length input"
    and "\<forall>j. pos \<le> j \<and> j < q \<longrightarrow> input ! j \<notin> set tokens"
  shows "find_first_of input tokens pos = find_first_of input tokens q"
  using assms
proof (induction "q - pos" arbitrary: pos)
  case 0
  then show ?case by simp
next
  case (Suc d)
  then have p: "pos < length input" "input ! pos \<notin> set tokens" by auto
  have "find_first_of input tokens pos = find_first_of input tokens (Suc pos)"
    using p by (simp add: find_first_of_def Cons_nth_drop_Suc [symmetric] option.map_comp comp_def)
  moreover have "find_first_of input tokens (Suc pos) = find_first_of input tokens q"
    using Suc by (intro Suc.hyps(1)) auto
  ultimately show ?case by simp
qed

lemma find_first_of_SomeI:
  assumes "pos \<le> q" "q < length input" "input ! q \<in> set tokens"
    and "\<forall>j. pos \<le> j \<and> j < q \<longrightarrow> input ! j \<notin> set tokens"
  shows "find_first_of input tokens pos = Some q"
proof -
  have "find_first_of input tokens pos = find_first_of input tokens q"
    using assms by (intro find_first_of_skip) auto
  also have "\<dots> = Some q"
    using assms(2,3) by (simp add: find_first_of_def Cons_nth_drop_Suc [symmetric])
  finally show ?thesis .
qed

lemma FindQuote_loop_skip:
  assumes "find_first_of input [dquote, squote] p = find_first_of input [dquote, squote] p'"
  shows "FindQuote_loop input p foundStart start = FindQuote_loop input p' foundStart start"
  by (subst FindQuote_loop.simps, subst (2) FindQuote_loop.simps) (simp only: assms)

lemma single_quotes_replaced_length [simp]:
  "length (single_quotes_replaced c input) = length input"
  by (simp add: single_quotes_replaced_def)

lemma single_quotes_replaced_nth:
  "j < length input \<Longrightarrow>
   single_quotes_replaced c input ! j = (if input ! j = squote then c else input ! j)"
  by (simp add: single_quotes_replaced_def)

lemma FindQuote_loop_single_quotes_replaced:
  assumes c: "c \<noteq> dquote" "c \<noteq> backslash" "c \<noteq> squote"
  shows "FindQuote_loop (single_quotes_replaced c input) qPos foundStart start
         = FindQuote_loop input qPos foundStart start"
proof (induction input qPos foundStart start rule: FindQuote_loop.induct)
  case (1 input qPos foundStart start)
  let ?R = "single_quotes_replaced c input"
  have nth: "?R ! j = (if input ! j = squote then c else input ! j)" if "j < length input" for j
    using that by (rule single_quotes_replaced_nth)
  show ?case
  proof (cases "find_first_of input [dquote, squote] qPos")
    case None
    have "\<forall>j. qPos \<le> j \<and> j < length ?R \<longrightarrow> ?R ! j \<notin> set [dquote, squote]"
    proof (intro allI impI)
      fix j assume j: "qPos \<le> j \<and> j < length ?R"
      then have "input ! j \<notin> set [dquote, squote]"
        using find_first_of_NoneD [OF None, of j] by simp
      then show "?R ! j \<notin> set [dquote, squote]" using j c by (simp add: nth)
    qed
    then have "find_first_of ?R [dquote, squote] qPos = None" by (rule find_first_of_NoneI)
    then show ?thesis using None
      by (subst FindQuote_loop.simps, subst (2) FindQuote_loop.simps) simp
  next
    case (Some q)
    note f = find_first_of_Some [OF Some]
    have q: "qPos \<le> q" "q < length input" using f by auto
    have before: "\<forall>j. qPos \<le> j \<and> j < q \<longrightarrow> ?R ! j \<notin> set [dquote, squote]"
    proof (intro allI impI)
      fix j assume j: "qPos \<le> j \<and> j < q"
      then have "input ! j \<notin> set [dquote, squote]" using f by blast
      then show "?R ! j \<notin> set [dquote, squote]" using j q c by (simp add: nth)
    qed
    show ?thesis
    proof (cases "input ! q = dquote")
      case True
      have Rq: "?R ! q = dquote" using True q by (simp add: nth)
      have fR: "find_first_of ?R [dquote, squote] qPos = Some q"
        using q before Rq by (intro find_first_of_SomeI) auto
      have esc: "(q = 0 \<or> ?R ! (q - 1) \<noteq> backslash) = (q = 0 \<or> input ! (q - 1) \<noteq> backslash)"
        using q c by (cases "q = 0") (simp_all add: nth)
      show ?thesis
      proof (cases "q = 0 \<or> input ! (q - 1) \<noteq> backslash")
        case unescaped: True
        show ?thesis
        proof (cases "\<not> foundStart \<and> q + 1 \<noteq> length input")
          case True
          then have "FindQuote_loop ?R (q + 1) True (Some q) = FindQuote_loop input (q + 1) True (Some q)"
            using "1.IH"(1) [OF Some] \<open>input ! q = dquote\<close> unescaped by simp
          then show ?thesis using Some fR Rq esc unescaped \<open>input ! q = dquote\<close> True
            by (subst FindQuote_loop.simps, subst (2) FindQuote_loop.simps) simp
        next
          case False
          then show ?thesis using Some fR Rq esc unescaped \<open>input ! q = dquote\<close>
            by (subst FindQuote_loop.simps, subst (2) FindQuote_loop.simps) auto
        qed
      next
        case escaped: False
        show ?thesis
        proof (cases "q + 1 = length input")
          case True
          then show ?thesis using Some fR Rq esc escaped \<open>input ! q = dquote\<close>
            by (subst FindQuote_loop.simps, subst (2) FindQuote_loop.simps) simp
        next
          case False
          then have "FindQuote_loop ?R (q + 1) foundStart start = FindQuote_loop input (q + 1) foundStart start"
            using "1.IH"(2) [OF Some] \<open>input ! q = dquote\<close> escaped by simp
          then show ?thesis using Some fR Rq esc escaped \<open>input ! q = dquote\<close> False
            by (subst FindQuote_loop.simps, subst (2) FindQuote_loop.simps) simp
        qed
      qed
    next
      case False
      then have sq: "input ! q = squote" using f by simp
      have Rq: "?R ! q = c" using sq q by (simp add: nth)
      have before': "\<forall>j. qPos \<le> j \<and> j < q + 1 \<longrightarrow> ?R ! j \<notin> set [dquote, squote]"
        using before Rq c by (auto simp: less_Suc_eq)
      have skip: "find_first_of ?R [dquote, squote] qPos = find_first_of ?R [dquote, squote] (q + 1)"
        using q before' by (intro find_first_of_skip) auto
      show ?thesis
      proof (cases "q + 1 = length input")
        case True
        have "find_first_of ?R [dquote, squote] qPos = None"
          using skip True by (simp add: find_first_of_def)
        then have "FindQuote_loop ?R qPos foundStart start = (False, start, None)"
          by (subst FindQuote_loop.simps) simp
        moreover have "FindQuote_loop input qPos foundStart start = (False, start, None)"
          using Some False True by (subst FindQuote_loop.simps) simp
        ultimately show ?thesis by simp
      next
        case neq: False
        have "FindQuote_loop ?R qPos foundStart start = FindQuote_loop ?R (q + 1) foundStart start"
          using skip by (rule FindQuote_loop_skip)
        also have "\<dots> = FindQuote_loop input (q + 1) foundStart start"
          using "1.IH"(2) [OF Some] False neq by simp
        also have "\<dots> = FindQuote_loop input qPos foundStart start"
          using Some False neq by (subst (2) FindQuote_loop.simps) simp
        finally show ?thesis .
      qed
    qed
  qed
qed

lemma FindNotCited_quotes_single_quotes_replaced:
  assumes c: "c \<noteq> dquote" "c \<noteq> backslash" "c \<noteq> squote"
  shows "FindNotCited_quotes (single_quotes_replaced c input) quoteEnd
         = FindNotCited_quotes input quoteEnd"
proof (induction input quoteEnd rule: FindNotCited_quotes.induct)
  case (1 input quoteEnd)
  have q: "FindQuote (single_quotes_replaced c input) quoteEnd = FindQuote input quoteEnd"
    by (simp add: FindQuote_def FindQuote_loop_single_quotes_replaced [OF c])
  obtain found st en where r: "FindQuote input quoteEnd = (found, st, en)"
    by (cases "FindQuote input quoteEnd")
  show ?case
  proof (cases "found \<and> st \<noteq> None \<and> en \<noteq> None \<and> the en + 1 \<noteq> length input")
    case True
    then obtain s e where se: "st = Some s" "en = Some e" by auto
    have "FindNotCited_quotes (single_quotes_replaced c input) (e + 1)
            = FindNotCited_quotes input (e + 1)"
      using "1.IH" [OF r [symmetric] refl _ se(1) se(2)] True se by simp
    then show ?thesis using q r se True
      by (subst FindNotCited_quotes.simps, subst (2) FindNotCited_quotes.simps) simp
  next
    case False
    then show ?thesis using q r
      by (subst FindNotCited_quotes.simps, subst (2) FindNotCited_quotes.simps)
        (auto split: option.splits)
  qed
qed

lemma find_if_map: "find_if P (map f xs) = find_if (\<lambda>x. P (f x)) xs"
  by (induction xs) auto

lemma find_first_of_single_quotes_replaced:
  assumes "token \<noteq> squote" "token \<noteq> c"
  shows "find_first_of (single_quotes_replaced c input) [token] pos = find_first_of input [token] pos"
proof -
  have "(\<lambda>x. (if x = squote then c else x) \<in> set [token]) = (\<lambda>x. x \<in> set [token])"
    using assms by auto
  then show ?thesis
    by (simp add: find_first_of_def single_quotes_replaced_def drop_map find_if_map)
qed

lemma FindNotCited_scan_single_quotes_replaced:
  assumes "token \<noteq> squote" "token \<noteq> c"
  shows "FindNotCited_scan (single_quotes_replaced c input) token tokenPos quotes n
         = FindNotCited_scan input token tokenPos quotes n"
  by (induction quotes arbitrary: tokenPos n)
    (simp_all add: find_first_of_single_quotes_replaced [OF assms] split: option.splits)

lemma FindNotCited_single_quotes_replaced:
  assumes "c \<noteq> dquote" "c \<noteq> backslash" "token \<noteq> squote" "token \<noteq> c"
  shows "FindNotCited (single_quotes_replaced c input) token = FindNotCited input token"
proof (cases "c = squote")
  case True
  then have "single_quotes_replaced c input = input"
    by (simp add: single_quotes_replaced_def map_idI)
  then show ?thesis by simp
next
  case False
  show ?thesis
    unfolding FindNotCited_def
      find_first_of_single_quotes_replaced [OF assms(3,4)]
      FindNotCited_quotes_single_quotes_replaced [OF assms(1,2) False]
      FindNotCited_scan_single_quotes_replaced [OF assms(3,4)]
    by (rule refl)
qed

lemma FindQuote_loop_span:
  assumes "FindQuote_loop input qPos foundStart start = (True, s, e)"
    and "foundStart \<longrightarrow> (\<exists>s0. start = Some s0 \<and> input ! s0 = dquote)"
  shows "\<exists>s' e'. s = Some s' \<and> e = Some e' \<and> input ! s' = dquote \<and> input ! e' = dquote"
  using assms
proof (induction input qPos foundStart start rule: FindQuote_loop.induct)
  case (1 input qPos foundStart start)
  note run = "1.prems"(1) [unfolded FindQuote_loop.simps [of input qPos foundStart start]]
  show ?case
  proof (cases "find_first_of input [dquote, squote] qPos")
    case None
    then show ?thesis using run by simp
  next
    case (Some q)
    show ?thesis
    proof (cases "input ! q = dquote \<and> (q = 0 \<or> input ! (q - 1) \<noteq> backslash)")
      case True
      show ?thesis
      proof (cases foundStart)
        case fs: True
        have "s = start" "e = Some q" using run Some True fs by simp_all
        then show ?thesis using "1.prems"(2) fs True by auto
      next
        case False
        show ?thesis
        proof (cases "q + 1 = length input")
          case eq: True
          then show ?thesis using run Some \<open>\<not> foundStart\<close> True by auto
        next
          case neq: False
          have "FindQuote_loop input (q + 1) True (Some q) = (True, s, e)"
            using run Some False neq True by auto
          then show ?thesis
            using "1.IH"(1) [OF Some True False neq] True by simp
        qed
      qed
    next
      case False
      show ?thesis
      proof (cases "q + 1 = length input")
        case True
        then show ?thesis using run Some False by auto
      next
        case neq: False
        have "FindQuote_loop input (q + 1) foundStart start = (True, s, e)"
          using run Some False neq by auto
        then show ?thesis using "1.IH"(2) [OF Some False neq] "1.prems"(2) by simp
      qed
    qed
  qed
qed

lemma FindNotCited_quotes_span:
  "\<forall>span \<in> set (FindNotCited_quotes input quoteEnd).
     input ! fst span = dquote \<and> input ! snd span = dquote"
proof (induction input quoteEnd rule: FindNotCited_quotes.induct)
  case (1 input quoteEnd)
  note u = FindNotCited_quotes.simps [of input quoteEnd]
  obtain found st en where r: "FindQuote input quoteEnd = (found, st, en)"
    by (cases "FindQuote input quoteEnd")
  show ?case
  proof (cases "found \<and> st \<noteq> None \<and> en \<noteq> None")
    case False
    then have "FindNotCited_quotes input quoteEnd = []"
      using r by (auto simp: u split: option.splits)
    then show ?thesis by simp
  next
    case True
    then obtain s e where se: "st = Some s" "en = Some e" by auto
    have "FindQuote_loop input quoteEnd False None = (True, Some s, Some e)"
      using r True se by (simp add: FindQuote_def)
    from FindQuote_loop_span [OF this] have d: "input ! s = dquote" "input ! e = dquote" by auto
    show ?thesis
    proof (cases "e + 1 = length input")
      case eq: True
      then have "FindNotCited_quotes input quoteEnd = [(s, e)]"
        using r True se by (simp add: u)
      then show ?thesis using d by simp
    next
      case False
      then have "FindNotCited_quotes input quoteEnd = (s, e) # FindNotCited_quotes input (e + 1)"
        using r True se by (simp add: u)
      then show ?thesis
        using "1.IH" [OF r [symmetric] refl _ se(1) se(2)] True False d by simp
    qed
  qed
qed

lemma FindNotCited_no_dquote:
  "dquote \<notin> set input \<Longrightarrow> FindNotCited input token = (find_first_of input [token] 0, 0)"
  by (simp add: FindNotCited_def FindNotCited_quotes.simps [of input 0] FindQuote_def
      FindQuote_loop_no_dquote split: option.splits)

text \<open>
  C7, as stated, fails. In \<open>'a#b'\<close> the \<open>#\<close> at position 2, between the two single quotes,
  is reported as not cited (the comment starts there), while in \<open>"a#b"\<close> it is cited.
\<close>

theorem single_quotes_do_not_cite:
  "FindNotCited_pos ([squote] @ ''a#b'' @ [squote]) CHR ''#'' = Some 2
   \<and> FindNotCited_pos ([dquote] @ ''a#b'' @ [dquote]) CHR ''#'' = None"
  by code_simp

text \<open>
  C7, amended: a position inside a single-quoted span does not count as cited. Only a
  double quote opens or closes a cited span (\<^verbatim>\<open>FindQuote\<close> stops at \<open>'\<close> and acts on \<open>"\<close>
  alone), and a single quote is an ordinary character to the scan. For every line, also
  one that has quotes of both kinds:
  \<^item> replacing every single quote by any character other than the double quote, the
    backslash and the token searched for changes neither the position that
    \<^verbatim>\<open>FindNotCited\<close> returns nor its count of the spans before it;
  \<^item> every span that \<^verbatim>\<open>FindNotCited\<close> collects starts at a double quote and ends at one;
  \<^item> in a line without a double quote the first \<open>#\<close> starts the comment and the first
    \<open>:\<close> is taken as the map key separator, also when it lies between an opening \<open>'\<close>
    and its closing \<open>'\<close>; no span is counted before it.
\<close>

theorem FindNotCited_ignores_single_quotes:
  "(c \<noteq> dquote \<and> c \<noteq> backslash \<and> token \<noteq> squote \<and> token \<noteq> c \<longrightarrow>
      FindNotCited (single_quotes_replaced c input) token = FindNotCited input token)
   \<and> (\<forall>span \<in> set (FindNotCited_quotes input 0).
         input ! fst span = dquote \<and> input ! snd span = dquote)
   \<and> (dquote \<notin> set input \<longrightarrow> FindNotCited input token = (find_first_of input [token] 0, 0))"
proof (intro conjI impI)
  assume "c \<noteq> dquote \<and> c \<noteq> backslash \<and> token \<noteq> squote \<and> token \<noteq> c"
  then show "FindNotCited (single_quotes_replaced c input) token = FindNotCited input token"
    by (intro FindNotCited_single_quotes_replaced) simp_all
next
  show "\<forall>span \<in> set (FindNotCited_quotes input 0).
          input ! fst span = dquote \<and> input ! snd span = dquote"
    by (rule FindNotCited_quotes_span)
next
  assume "dquote \<notin> set input"
  then show "FindNotCited input token = (find_first_of input [token] 0, 0)"
    by (rule FindNotCited_no_dquote)
qed

theorem FindNotCited_ignores_single_quotes_witness:
  "FindNotCited (single_quotes_replaced CHR ''q'' ([dquote] @ ''x'' @ [dquote] @ '' '' @ [squote] @ ''a#b'' @ [squote]))
       CHR ''#''
     = FindNotCited ([dquote] @ ''x'' @ [dquote] @ '' '' @ [squote] @ ''a#b'' @ [squote]) CHR ''#''
   \<and> FindNotCited ([dquote] @ ''x'' @ [dquote] @ '' '' @ [squote] @ ''a#b'' @ [squote]) CHR ''#''
     = (Some 6, 1)
   \<and> FindNotCited_quotes ([dquote] @ ''x'' @ [dquote] @ '' '' @ [squote] @ ''a#b'' @ [squote]) 0
     = [(0, 2)]
   \<and> dquote \<notin> set ([squote] @ ''a:b'' @ [squote] @ '': c'')
   \<and> FindNotCited ([squote] @ ''a:b'' @ [squote] @ '': c'') CHR '':'' = (Some 2, 0)"
proof -
  have r: "FindNotCited ([dquote] @ ''x'' @ [dquote] @ '' '' @ [squote] @ ''a#b'' @ [squote]) CHR ''#''
             = (Some 6, 1)"
    by code_simp
  have q: "FindNotCited_quotes ([dquote] @ ''x'' @ [dquote] @ '' '' @ [squote] @ ''a#b'' @ [squote]) 0
             = [(0, 2)]"
    by code_simp
  have f: "find_first_of ([squote] @ ''a:b'' @ [squote] @ '': c'') '':'' 0 = Some 2"
    by (simp add: find_first_of_def)
  show ?thesis
    using FindNotCited_ignores_single_quotes [of "CHR ''q''" "CHR ''#''"
        "[dquote] @ ''x'' @ [dquote] @ '' '' @ [squote] @ ''a#b'' @ [squote]"]
      FindNotCited_ignores_single_quotes [of "CHR ''q''" "CHR '':''"
        "[squote] @ ''a:b'' @ [squote] @ '': c''"] r q f
    by simp
qed
section \<open>Properties of the parser\<close>

subsection \<open>C8: document markers\<close>

lemma comment_removed_markers [simp]:
  "comment_removed ''---'' = ''---''" "comment_removed ''...'' = ''...''"
  by (simp_all add: comment_removed_def FindNotCited_pos_def FindNotCited_def find_first_of_def)

lemma ReadLines_loop_Cons:
  "ReadLines_loop (raw # stream) documentStartFound m_Lines =
     (let line = comment_removed raw
      in if documentStartFound = False \<and> line = ''---'' then ReadLines_loop stream True []
         else if line = ''...'' then Inr m_Lines
         else
           (let line' = (if length line \<noteq> 0 \<and> last line = creturn then butlast line else line)
            in if length line' = 0 then ReadLines_loop stream documentStartFound m_Lines
               else if list_ex invalid_character line'
                 then Inl (Throw (ParsingException g_ErrorInvalidCharacter), m_Lines)
               else ReadLines_loop stream documentStartFound (m_Lines @ [ReaderLine_new line' 0])))"
  by (simp add: comment_removed_def)

lemma first_marker:
  "\<forall>raw \<in> set pre. comment_removed raw \<noteq> ''---'' \<and> passes raw \<Longrightarrow>
   ReadLines_loop (pre @ ''---'' # post) False m_Lines = ReadLines_loop post True []"
proof (induction pre arbitrary: m_Lines)
  case Nil
  show ?case by (simp add: ReadLines_loop_Cons del: ReadLines_loop.simps(2))
next
  case (Cons raw pre)
  then show ?case
    by (simp add: ReadLines_loop_Cons passes_def Let_def del: ReadLines_loop.simps(2))
qed

lemma end_marker:
  "\<forall>raw \<in> set pre. comment_removed raw \<noteq> ''...'' \<Longrightarrow>
   ReadLines_loop (pre @ ''...'' # post) documentStartFound m_Lines
     = ReadLines_loop pre documentStartFound m_Lines"
proof (induction pre arbitrary: documentStartFound m_Lines)
  case Nil
  show ?case by (simp add: ReadLines_loop_Cons del: ReadLines_loop.simps(2))
next
  case (Cons raw pre)
  then show ?case
    by (simp add: ReadLines_loop_Cons Let_def del: ReadLines_loop.simps(2))
qed

lemma later_marker:
  "ReadLines_loop (''---'' # post) True m_Lines
     = ReadLines_loop post True (m_Lines @ [ReaderLine_new ''---'' 0])"
  by (simp add: ReadLines_loop_Cons invalid_character_def del: ReadLines_loop.simps(2))

text \<open>
  C8, as stated, fails. In the input \<open>a\<close>, \<open>---\<close>, \<open>b\<close> the marker comes after a content
  line and still discards it: only \<open>b\<close> is read.
\<close>

theorem document_start_after_content_discards_it:
  "ReadLines (''a'' @ [newline] @ ''---'' @ [newline] @ ''b'')
   = Inr [\<lparr>Data = ''b'', Offset = 0, Type = NoneType, Flags = {}\<rparr>]"
  by code_simp

text \<open>
  C8, amended: during line reading, the first exact line \<open>---\<close> of the input acts as the
  start-of-document marker wherever it occurs, also after content lines: all lines
  accumulated before it are discarded (provided none of them ended the reading, by \<open>...\<close>
  or an invalid character). A later exact line \<open>---\<close> is kept as a content line. An exact
  line \<open>...\<close> terminates reading at once and all remaining input is ignored.
\<close>

theorem document_markers:
  "((\<forall>raw \<in> set pre. comment_removed raw \<noteq> ''---'' \<and> passes raw) \<longrightarrow>
      ReadLines_loop (pre @ ''---'' # post) False m_Lines = ReadLines_loop post True [])
   \<and> ReadLines_loop (''---'' # post) True m_Lines
        = ReadLines_loop post True (m_Lines @ [ReaderLine_new ''---'' 0])
   \<and> ((\<forall>raw \<in> set pre. comment_removed raw \<noteq> ''...'') \<longrightarrow>
        ReadLines_loop (pre @ ''...'' # post) documentStartFound m_Lines
          = ReadLines_loop pre documentStartFound m_Lines)"
  using first_marker [of pre post m_Lines] later_marker [of post m_Lines]
    end_marker [of pre post documentStartFound m_Lines]
  by blast

theorem document_markers_witness:
  "comment_removed ''a: 1'' \<noteq> ''---'' \<and> passes ''a: 1''
   \<and> ReadLines_loop ([''a: 1''] @ ''---'' # [''b: 2'']) False [] = Inr [ReaderLine_new ''b: 2'' 0]
   \<and> comment_removed ''a: 1'' \<noteq> ''...''
   \<and> ReadLines_loop ([''a: 1''] @ ''...'' # [''b: 2'']) False [] = Inr [ReaderLine_new ''a: 1'' 0]"
proof -
  have c: "comment_removed ''a: 1'' = ''a: 1''"
    by (simp add: comment_removed_def FindNotCited_pos_def FindNotCited_def find_first_of_def)
  have p: "passes ''a: 1''" by (simp add: passes_def c invalid_character_def)
  have r1: "ReadLines_loop [''b: 2''] True [] = Inr [ReaderLine_new ''b: 2'' 0]" by code_simp
  have r2: "ReadLines_loop [''a: 1''] False [] = Inr [ReaderLine_new ''a: 1'' 0]" by code_simp
  show ?thesis
    using document_markers [of "[''a: 1'']" "[''b: 2'']" "[]" False] c p r1 r2 by simp
qed

subsection \<open>C6: a failed parse\<close>

text \<open>The three phases throw parsing and internal errors only.\<close>

lemma ReadLines_loop_failure:
  "ReadLines_loop stream documentStartFound m_Lines = Inl (f, ls) \<Longrightarrow> parse_failure f"
  by (induction stream documentStartFound m_Lines rule: ReadLines_loop.induct)
    (auto simp: Let_def split: if_splits)

lemma ReadLines_trim_failure: "ReadLines_trim m_Lines = Inl (f, ls) \<Longrightarrow> parse_failure f"
  by (induction m_Lines arbitrary: ls)
    (auto simp: Let_def split: if_splits option.splits sum.splits)

lemma ReadLines_failure: "ReadLines stream = Inl (f, ls) \<Longrightarrow> parse_failure f"
  by (auto simp: ReadLines_def ReadLines_loop_failure ReadLines_trim_failure split: sum.splits)

lemma PostProcessMapping_failure:
  "PostProcessMapping front pLine after = Inl (f, ls) \<Longrightarrow> parse_failure f"
  by (auto simp: PostProcessMapping_def Let_def split: prod.splits option.splits if_splits)

lemma PostProcessScalar_failure:
  "PostProcessScalar front lines = Inl (f, ls) \<Longrightarrow> parse_failure f"
  by (auto simp: PostProcessScalar_def Let_def split: list.splits prod.splits if_splits)

lemma PostProcessLines_step_failure:
  "PostProcessLines_step front pLine after = Inl (f, ls) \<Longrightarrow> parse_failure f"
  by (auto simp: PostProcessLines_step_def PostProcessMapping_failure PostProcessScalar_failure
      split: prod.splits bool.splits list.splits sum.splits)

lemma PostProcessLines_loop_failure:
  "PostProcessLines_loop front lines = Inl (f, ls) \<Longrightarrow> parse_failure f"
proof (induction front lines rule: PostProcessLines_loop.induct)
  case (1 front)
  then show ?case by (simp add: PostProcessLines_loop.simps)
next
  case (2 front pLine after)
  then show ?case
    by (auto simp: PostProcessLines_loop.simps PostProcessLines_step_failure split: sum.splits)
qed

lemma PostProcessLines_failure: "PostProcessLines m_Lines = Inl (f, ls) \<Longrightarrow> parse_failure f"
  by (auto simp: PostProcessLines_def PostProcessLines_loop_failure split: sum.splits if_splits)

lemma ProcessScalar_failure: "ProcessScalar node lines = Inl (f, n) \<Longrightarrow> parse_failure f"
  by (auto simp: ProcessScalar_def split: list.splits)

lemma ProcessSequence_ProcessMap_failure:
  "ProcessSequence node lines = Inl (f, n) \<Longrightarrow> parse_failure f"
  "ProcessMap node lines = Inl (f, n) \<Longrightarrow> parse_failure f"
proof (induction node lines and node lines arbitrary: n and n rule: ProcessSequence_ProcessMap.induct)
  case (1 node)
  then show ?case by (simp add: ProcessSequence.simps)
next
  case (2 node pLine it)
  note run = "2.prems" [unfolded ProcessSequence.simps(2)]
  show ?case
  proof (cases it)
    case Nil
    then show ?thesis using run by auto
  next
    case (Cons valueLine it0)
    let ?child = "Node_get_child (fst (Node_PushBack node)) (snd (Node_PushBack node))"
    let ?inner = "case Type valueLine of
                   NoneType \<Rightarrow> Inr (?child, it)
                 | SequenceType \<Rightarrow> ProcessSequence ?child it
                 | MapType \<Rightarrow> ProcessMap ?child it
                 | ScalarType \<Rightarrow> ProcessScalar ?child it"
    show ?thesis
    proof (cases ?inner)
      case (Inl r)
      obtain f' c where r: "r = (f', c)" by (cases r)
      have "f' = f" using run Cons Inl r by simp
      then have "?inner = Inl (f, c)" using Inl r by simp
      then show ?thesis
        using "2.IH"(1) [OF Cons] "2.IH"(2) [OF Cons] ProcessScalar_failure
        by (cases "Type valueLine") auto
    next
      case (Inr r)
      obtain c it' where r: "r = (c, it')" by (cases r)
      show ?thesis
      proof (cases it')
        case Nil
        then show ?thesis using run Cons Inr r by simp
      next
        case (Cons pNextLine it1)
        show ?thesis
        proof (cases "\<not> Offset pNextLine < Offset pLine \<and> \<not> Offset pLine < Offset pNextLine
                       \<and> Type pNextLine = Type pLine")
          case True
          then have "ProcessSequence
                 (Node_put_child (fst (Node_PushBack node)) (snd (Node_PushBack node)) c) it' = Inl (f, n)"
            using run \<open>it = valueLine # it0\<close> Inr r Cons by simp
          then show ?thesis
            using "2.IH"(3) [OF \<open>it = valueLine # it0\<close> Inr [unfolded r] refl Cons] True by blast
        next
          case False
          then show ?thesis using run \<open>it = valueLine # it0\<close> Inr r Cons
            by (auto split: if_splits)
        qed
      qed
    qed
  qed
next
  case (3 node)
  then show ?case by (simp add: ProcessMap.simps)
next
  case (4 node pLine it)
  note run = "4.prems" [unfolded ProcessMap.simps(2)]
  show ?case
  proof (cases it)
    case Nil
    then show ?thesis using run by auto
  next
    case (Cons valueLine it0)
    let ?child = "snd (Node_index_key node (Data pLine))"
    let ?inner = "case Type valueLine of
                   NoneType \<Rightarrow> Inr (?child, it)
                 | SequenceType \<Rightarrow> ProcessSequence ?child it
                 | MapType \<Rightarrow> ProcessMap ?child it
                 | ScalarType \<Rightarrow> ProcessScalar ?child it"
    show ?thesis
    proof (cases ?inner)
      case (Inl r)
      obtain f' c where r: "r = (f', c)" by (cases r)
      have "f' = f" using run Cons Inl r by simp
      then have "?inner = Inl (f, c)" using Inl r by simp
      then show ?thesis
        using "4.IH"(1) [OF Cons] "4.IH"(2) [OF Cons] ProcessScalar_failure
        by (cases "Type valueLine") auto
    next
      case (Inr r)
      obtain c it' where r: "r = (c, it')" by (cases r)
      show ?thesis
      proof (cases it')
        case Nil
        then show ?thesis using run Cons Inr r by simp
      next
        case (Cons pNextLine it1)
        show ?thesis
        proof (cases "\<not> Offset pNextLine < Offset pLine \<and> \<not> Offset pLine < Offset pNextLine
                       \<and> Type pNextLine = Type pLine")
          case True
          then have "ProcessMap
                 (Node_put_child_key (fst (Node_index_key node (Data pLine))) (Data pLine) c) it' = Inl (f, n)"
            using run \<open>it = valueLine # it0\<close> Inr r Cons by simp
          then show ?thesis
            using "4.IH"(3) [OF \<open>it = valueLine # it0\<close> Inr [unfolded r] refl Cons] True by blast
        next
          case False
          then show ?thesis using run \<open>it = valueLine # it0\<close> Inr r Cons
            by (auto split: if_splits)
        qed
      qed
    qed
  qed
qed

lemma ProcessRoot_failure: "ProcessRoot root m_Lines = Inl (f, n) \<Longrightarrow> parse_failure f"
  by (auto simp: ProcessRoot_def ProcessScalar_failure ProcessSequence_ProcessMap_failure
      split: list.splits eType.splits sum.splits if_splits)

lemma Parse_throws_no_operation_error: "Parse root stream \<noteq> Inl (Throw (OperationException m))"
proof
  assume "Parse root stream = Inl (Throw (OperationException m))"
  then obtain r ls where "ReaderImp_try root stream = Inl (Throw (OperationException m), r, ls)"
    by (auto simp: Parse_def ReaderImp_Parse_def ReaderImp_catch_def
        split: sum.splits failure.splits)
  then have "parse_failure (Throw (OperationException m))"
    by (auto simp: ReaderImp_try_def split: sum.splits
        dest: ReadLines_failure PostProcessLines_failure ProcessRoot_failure)
  then show False by simp
qed

text \<open>
  C6: whenever \<^verbatim>\<open>Parse\<close> on a stream or buffer throws an exception, the exception was
  thrown inside the \<^verbatim>\<open>try\<close> block of \<^verbatim>\<open>ReaderImp::Parse\<close>, with some root and some
  \<^verbatim>\<open>m_Lines\<close> at that moment, and \<^verbatim>\<open>ReaderImp::Parse\<close> has left the root in the None state
  and \<^verbatim>\<open>m_Lines\<close> empty before the exception leaves it: no partially built tree remains
  in the root. The exception is a parsing or an internal error; no operation error is
  thrown on this path.
\<close>

theorem failed_parse_leaves_root_None_and_no_lines:
  "Parse root stream = Inl (Throw e) \<Longrightarrow>
   (\<exists>root' m_Lines. ReaderImp_try root stream = Inl (Throw e, root', m_Lines))
   \<and> ReaderImp_Parse root stream = Raised e NoneNode []
   \<and> (\<forall>m. e \<noteq> OperationException m)"
  using Parse_throws_no_operation_error [of root stream]
  by (auto simp: Parse_def ReaderImp_Parse_def ReaderImp_catch_def NodeImp_Clear_def ClearLines_def
      split: sum.splits failure.splits)

text \<open>
  An input that fails while the tree is built: under the key \<open>a\<close> a sequence item is
  followed by a map entry at the same offset. When the exception is thrown the root
  holds the map with the sequence under \<open>a\<close>, and \<^verbatim>\<open>m_Lines\<close> holds five lines.
\<close>

theorem failed_parse_leaves_root_None_and_no_lines_witness:
  "ReaderImp_try (ScalarNode ''old'')
       (''a:'' @ [newline] @ ''  - x'' @ [newline] @ ''  b: 1'' @ [newline])
     = Inl (Throw (InternalException g_ErrorDiffEntryNotAllowed),
            MapNode [(''a'', SequenceNode [(0, ScalarNode ''x'')])],
            [\<lparr>Data = ''a'', Offset = 0, Type = MapType, Flags = {}\<rparr>,
             \<lparr>Data = [], Offset = 2, Type = SequenceType, Flags = {}\<rparr>,
             \<lparr>Data = ''x'', Offset = 4, Type = ScalarType, Flags = {}\<rparr>,
             \<lparr>Data = ''b'', Offset = 2, Type = MapType, Flags = {}\<rparr>,
             \<lparr>Data = ''1'', Offset = 3, Type = ScalarType, Flags = {}\<rparr>])
   \<and> Parse (ScalarNode ''old'') (''a:'' @ [newline] @ ''  - x'' @ [newline] @ ''  b: 1'' @ [newline])
     = Inl (Throw (InternalException g_ErrorDiffEntryNotAllowed))
   \<and> ReaderImp_Parse (ScalarNode ''old'')
       (''a:'' @ [newline] @ ''  - x'' @ [newline] @ ''  b: 1'' @ [newline])
     = Raised (InternalException g_ErrorDiffEntryNotAllowed) NoneNode []"
proof -
  have t: "ReaderImp_try (ScalarNode ''old'')
       (''a:'' @ [newline] @ ''  - x'' @ [newline] @ ''  b: 1'' @ [newline])
     = Inl (Throw (InternalException g_ErrorDiffEntryNotAllowed),
            MapNode [(''a'', SequenceNode [(0, ScalarNode ''x'')])],
            [\<lparr>Data = ''a'', Offset = 0, Type = MapType, Flags = {}\<rparr>,
             \<lparr>Data = [], Offset = 2, Type = SequenceType, Flags = {}\<rparr>,
             \<lparr>Data = ''x'', Offset = 4, Type = ScalarType, Flags = {}\<rparr>,
             \<lparr>Data = ''b'', Offset = 2, Type = MapType, Flags = {}\<rparr>,
             \<lparr>Data = ''1'', Offset = 3, Type = ScalarType, Flags = {}\<rparr>])"
    by code_simp
  have p: "Parse (ScalarNode ''old'') (''a:'' @ [newline] @ ''  - x'' @ [newline] @ ''  b: 1'' @ [newline])
             = Inl (Throw (InternalException g_ErrorDiffEntryNotAllowed))"
    unfolding Parse_def ReaderImp_Parse_def t by (simp add: ReaderImp_catch_def)
  show ?thesis
    using failed_parse_leaves_root_None_and_no_lines [OF p] t p by simp
qed
section \<open>Properties of the emitter\<close>

subsection \<open>C1: the order of a map\<close>

lemma Node_assign_string_any [simp]: "Node_assign_string c v = ScalarNode v"
  by (cases c) (simp_all add: Node_assign_string_def)











lemma Node_iterate_loop_no_container:
  assumes "Node_iterate_loop n it visited = Some r"
  shows "Node_End n \<noteq> NoneIterator"
proof (rule Node_iterate_loop.raw_induct [rotated 1, where P = "\<lambda>n it visited r. Node_End n \<noteq> NoneIterator", OF assms])
  fix f :: "Node \<Rightarrow> Iterator \<Rightarrow> (string \<times> Node) list \<Rightarrow> (string \<times> Node) list option"
  fix n it visited r
  assume IH: "\<And>n it visited r. f n it visited = Some r \<Longrightarrow> Node_End n \<noteq> NoneIterator"
  assume step: "(if Iterator_eq it (Node_End n) then Some visited
                 else f n (Iterator_incr it) (visited @ [Iterator_deref n it])) = Some r"
  show "Node_End n \<noteq> NoneIterator"
  proof (cases "Iterator_eq it (Node_End n)")
    case True
    then show ?thesis by (cases it) auto
  next
    case False
    then have "f n (Iterator_incr it) (visited @ [Iterator_deref n it]) = Some r"
      using step by simp
    then show ?thesis by (rule IH)
  qed
qed

lemma Node_iterate_no_container:
  "Node_iterate NoneNode = None" "Node_iterate (ScalarNode v) = None"
proof -
  show "Node_iterate NoneNode = None"
    using Node_iterate_loop_no_container [of NoneNode NoneIterator "[]"]
    by (cases "Node_iterate_loop NoneNode NoneIterator []") (auto simp: Node_iterate_def)
  show "Node_iterate (ScalarNode v) = None"
    using Node_iterate_loop_no_container [of "ScalarNode v" NoneIterator "[]"]
    by (cases "Node_iterate_loop (ScalarNode v) NoneIterator []") (auto simp: Node_iterate_def)
qed












end
